theory Spec2Isabelle
  imports Complex_Main "HOL-Library.Monad_Syntax" "HOL-Library.Stream"
begin

section \<open>The Dyna agent of \<^verbatim>\<open>code/agent.py\<close>\<close>

text \<open>
  The class \<^verbatim>\<open>DynaAgent\<close> keeps its tables in numpy arrays that every method mutates in
  place. The model passes the tables explicitly: a method takes the agent and returns the
  updated one. A Python exception (the \<^verbatim>\<open>IndexError\<close> of an array access out of range,
  the \<^verbatim>\<open>ValueError\<close> of \<^verbatim>\<open>np.max\<close> on an empty row or of a random draw from an empty
  range, the \<^verbatim>\<open>OverflowError\<close> of a reward that does not fit the integer buffer) is the
  result \<open>None\<close>.

  A method \<^verbatim>\<open>_name\<close> of the class is the function \<open>name\<close> here. The second class of
  the file, \<^verbatim>\<open>TwoStepAgent\<close>, is unfinished in the source and is not modelled.

  Entries of the value table are \<^verbatim>\<open>float64\<close> in the source and real numbers here:
  rounding is not modelled. Entries of the integer arrays are \<^verbatim>\<open>int64\<close> in the source:
  a reward written into the experience buffer is checked against that range, and the
  recency counter, which grows by one per real step, is unbounded here. Indices are
  natural numbers: numpy's negative indices do not arise,
  since states come from \<^verbatim>\<open>np.arange\<close> and actions from \<^verbatim>\<open>np.random.choice\<close> or
  \<^verbatim>\<open>np.argmax\<close>.
\<close>

subsection \<open>Data\<close>

text \<open>
  The constructor arguments of \<^verbatim>\<open>DynaAgent.__init__\<close>.
\<close>

record config =
  alpha :: real
  gamma :: real
  epsilon :: real

text \<open>
  The base class \<^verbatim>\<open>Environment\<close> lives in a module that is not part of the sources
  read here, so what the agent reads from it is a parameter: the two sizes, the start and
  the goal state, the row \<^verbatim>\<open>T[s, a, :]\<close> of the transition tensor and the entry
  \<^verbatim>\<open>R[s, a]\<close> of the reward table.
\<close>

record env =
  num_states :: nat
  num_actions :: nat
  start_state :: nat
  goal_state :: nat
  T :: "nat \<Rightarrow> nat \<Rightarrow> real list"
  R :: "nat \<Rightarrow> nat \<Rightarrow> real"

text \<open>
  A row of the experience buffer is \<^verbatim>\<open>[s, a, r, s1]\<close> in an array of \<^verbatim>\<open>dtype=int\<close>;
  a row of the history is the same four values in an array that numpy promotes to floats
  as soon as a real reward is stacked onto it.
\<close>

type_synonym buffer_row = "nat \<times> nat \<times> int \<times> nat"
type_synonym history_row = "nat \<times> nat \<times> real \<times> nat"

record agent =
  Q :: "real list list"
  experience_buffer :: "buffer_row list"
  action_count :: "nat list list"
  history :: "history_row list"
  action_taken :: "real list list"
  self_s :: nat

text \<open>
  The ambient generator \<^verbatim>\<open>np.random\<close> is a stream of raw draws; each call of a numpy
  sampling function consumes one of them. The seed is the stream.
\<close>

type_synonym rng = "nat stream"

subsection \<open>The numpy operations the agent calls\<close>

definition get1 :: "'a list \<Rightarrow> nat \<Rightarrow> 'a option" where
  "get1 xs i = (if i < length xs then Some (xs ! i) else None)"

definition get2 :: "'a list list \<Rightarrow> nat \<Rightarrow> nat \<Rightarrow> 'a option" where
  "get2 m i j = do { row \<leftarrow> get1 m i; get1 row j }"

definition set2 :: "'a list list \<Rightarrow> nat \<Rightarrow> nat \<Rightarrow> 'a \<Rightarrow> 'a list list option" where
  "set2 m i j v =
     (if i < length m \<and> j < length (m ! i) then Some (m[i := (m ! i)[j := v]]) else None)"

definition np_zeros :: "nat \<Rightarrow> nat \<Rightarrow> 'a::zero list list" where
  "np_zeros n k = replicate n (replicate k 0)"

text \<open>\<^verbatim>\<open>np.max\<close> of a row: the running maximum, a \<^verbatim>\<open>ValueError\<close> on an empty row.\<close>

definition np_max :: "real list \<Rightarrow> real option" where
  "np_max xs = (case xs of [] \<Rightarrow> None | x # ys \<Rightarrow> Some (fold max ys x))"

text \<open>
  \<^verbatim>\<open>np.argmax\<close> scans the row from the left and moves to an index only when its value is
  strictly greater than the best one seen so far.
\<close>

fun argmax_scan :: "nat \<Rightarrow> real \<Rightarrow> nat \<Rightarrow> real list \<Rightarrow> nat" where
  "argmax_scan bi bv i [] = bi"
| "argmax_scan bi bv i (x # xs) =
     (if bv < x then argmax_scan i x (Suc i) xs else argmax_scan bi bv (Suc i) xs)"

definition np_argmax :: "real list \<Rightarrow> nat option" where
  "np_argmax xs = (case xs of [] \<Rightarrow> None | x # ys \<Rightarrow> Some (argmax_scan 0 x 1 ys))"

text \<open>\<^verbatim>\<open>np.unique\<close>: the distinct values of the row, sorted.\<close>

definition np_unique :: "real list \<Rightarrow> real list" where
  "np_unique xs = sort (remdups xs)"

text \<open>\<^verbatim>\<open>np.cumsum\<close>: the running sums, one per element.\<close>

fun cumsum_from :: "real \<Rightarrow> real list \<Rightarrow> real list" where
  "cumsum_from acc [] = []"
| "cumsum_from acc (x # xs) = (acc + x) # cumsum_from (acc + x) xs"

definition np_cumsum :: "real list \<Rightarrow> real list" where
  "np_cumsum xs = cumsum_from 0 xs"

text \<open>
  Storing a float into an array of \<^verbatim>\<open>dtype=int\<close>, whose entries are \<^verbatim>\<open>int64\<close>,
  truncates it toward zero; numpy raises an \<^verbatim>\<open>OverflowError\<close> when the truncated value
  does not fit 64 bits.
\<close>

definition trunc :: "real \<Rightarrow> int" where
  "trunc x = (if 0 \<le> x then \<lfloor>x\<rfloor> else \<lceil>x\<rceil>)"

definition to_int :: "real \<Rightarrow> int option" where
  "to_int x = (if - (2 ^ 63) \<le> trunc x \<and> trunc x < 2 ^ 63 then Some (trunc x) else None)"

text \<open>
  \<^verbatim>\<open>np.random.choice(n)\<close> and \<^verbatim>\<open>np.random.randint(n)\<close>: an index below \<open>n\<close>, a
  \<^verbatim>\<open>ValueError\<close> when \<open>n\<close> is 0.
\<close>

definition random_below :: "nat \<Rightarrow> rng \<Rightarrow> (nat \<times> rng) option" where
  "random_below n g = (if n = 0 then None else Some (shd g mod n, stl g))"

text \<open>
  \<^verbatim>\<open>np.random.choice(np.arange(n), p=p)\<close>: numpy rejects a \<open>p\<close> of the wrong length, with a
  negative entry or not summing to 1, then draws a uniform variate \<open>u\<close> in \<open>[0, 1)\<close> with
  53 bits and returns the number of entries of the cumulative sums of \<open>p\<close> that are at
  most \<open>u\<close>.
\<close>

definition uniform01 :: "nat \<Rightarrow> real" where
  "uniform01 x = real (x mod 2 ^ 53) / 2 ^ 53"

definition random_choice_p :: "nat \<Rightarrow> real list \<Rightarrow> rng \<Rightarrow> (nat \<times> rng) option" where
  "random_choice_p n p g =
     (if n = 0 \<or> length p \<noteq> n \<or> (\<exists>x \<in> set p. x < 0) \<or> sum_list p \<noteq> 1 then None
      else Some (length (takeWhile (\<lambda>c. c \<le> uniform01 (shd g)) (np_cumsum p)), stl g))"

subsection \<open>Initialisation\<close>

definition init_q_values :: "env \<Rightarrow> agent \<Rightarrow> agent" where
  "init_q_values e ag = ag\<lparr>Q := np_zeros (num_states e) (num_actions e)\<rparr>"

definition init_experience_buffer :: "env \<Rightarrow> agent \<Rightarrow> agent" where
  "init_experience_buffer e ag =
     ag\<lparr>experience_buffer :=
          fold (\<lambda>s buf. fold (\<lambda>a buf'. buf'[s * num_actions e + a := (s, a, 0, s)])
                          [0..<num_actions e] buf)
               [0..<num_states e]
               (replicate (num_states e * num_actions e) (0, 0, 0, 0))\<rparr>"

definition init_history :: "agent \<Rightarrow> agent" where
  "init_history ag = ag\<lparr>history := []\<rparr>"

definition init_action_count :: "env \<Rightarrow> agent \<Rightarrow> agent" where
  "init_action_count e ag = ag\<lparr>action_count := np_zeros (num_states e) (num_actions e)\<rparr>"

definition init_action_taken :: "agent \<Rightarrow> agent" where
  "init_action_taken ag =
     ag\<lparr>action_taken :=
          np_zeros (length (action_count ag))
                   (case action_count ag of [] \<Rightarrow> 0 | row # _ \<Rightarrow> length row)\<rparr>"

subsection \<open>The updates\<close>

definition update_experience_buffer ::
  "env \<Rightarrow> agent \<Rightarrow> nat \<Rightarrow> nat \<Rightarrow> real \<Rightarrow> nat \<Rightarrow> agent option" where
  "update_experience_buffer e ag s a r s1 = do {
     k \<leftarrow> to_int r;
     if s * num_actions e + a < length (experience_buffer ag)
     then Some (ag\<lparr>experience_buffer :=
                    (experience_buffer ag)[s * num_actions e + a := (s, a, k, s1)]\<rparr>)
     else None
   }"

definition update_qvals ::
  "config \<Rightarrow> agent \<Rightarrow> nat \<Rightarrow> nat \<Rightarrow> real \<Rightarrow> nat \<Rightarrow> bool \<Rightarrow> agent option" where
  "update_qvals c ag s a r s1 bonus = do {
     q \<leftarrow> get2 (Q ag) s a;
     row1 \<leftarrow> get1 (Q ag) s1;
     m \<leftarrow> np_max row1;
     tab \<leftarrow> set2 (Q ag) s a (q + alpha c * (r + gamma c * m - q));
     let ag1 = ag\<lparr>Q := tab\<rparr>;
     if bonus then do {
       q' \<leftarrow> get2 (Q ag1) s a;
       n \<leftarrow> get2 (action_count ag1) s a;
       row1' \<leftarrow> get1 (Q ag1) s1;
       m' \<leftarrow> np_max row1';
       tab' \<leftarrow> set2 (Q ag1) s a
                 (q' + alpha c * (r + epsilon c * sqrt (real n) + gamma c * m' - q'));
       Some (ag1\<lparr>Q := tab'\<rparr>)
     } else Some ag1
   }"

definition update_action_count :: "agent \<Rightarrow> nat \<Rightarrow> nat \<Rightarrow> agent option" where
  "update_action_count ag s a = do {
     tab \<leftarrow> set2 (map (map Suc) (action_count ag)) s a 0;
     Some (ag\<lparr>action_count := tab\<rparr>)
   }"

definition update_history :: "agent \<Rightarrow> nat \<Rightarrow> nat \<Rightarrow> real \<Rightarrow> nat \<Rightarrow> agent" where
  "update_history ag s a r s1 = ag\<lparr>history := history ag @ [(s, a, r, s1)]\<rparr>"

subsection \<open>Policy, planning, reporting and the simulation loop\<close>

definition policy :: "agent \<Rightarrow> nat \<Rightarrow> rng \<Rightarrow> (nat \<times> rng) option" where
  "policy ag s g = do {
     row \<leftarrow> get1 (Q ag) s;
     q0 \<leftarrow> get1 row 0;
     if list_all (\<lambda>x. x = q0) (np_unique row) then random_below (length row) g
     else do { a \<leftarrow> np_argmax row; Some (a, g) }
   }"

fun plan :: "config \<Rightarrow> nat \<Rightarrow> agent \<times> rng \<Rightarrow> (agent \<times> rng) option" where
  "plan c 0 (ag, g) = Some (ag, g)"
| "plan c (Suc k) (ag, g) = do {
     (i, g1) \<leftarrow> random_below (length (experience_buffer ag)) g;
     (s, a, r, s1) \<leftarrow> get1 (experience_buffer ag) i;
     ag1 \<leftarrow> update_qvals c ag s a (of_int r) s1 True;
     plan c k (ag1, g1)
   }"

definition get_performace :: "agent \<Rightarrow> real list" where
  "get_performace ag = np_cumsum (map (\<lambda>(s, a, r, s1). r) (history ag))"

text \<open>One pass through the body of the loop of \<^verbatim>\<open>simulate\<close>.\<close>

definition real_step ::
  "env \<Rightarrow> config \<Rightarrow> nat option \<Rightarrow> agent \<times> rng \<Rightarrow> (agent \<times> rng) option" where
  "real_step e c num_planning_updates st = (case st of (ag, g) \<Rightarrow> do {
     (a, g1) \<leftarrow> policy ag (self_s ag) g;
     (s1, g2) \<leftarrow> random_choice_p (num_states e) (T e (self_s ag) a) g1;
     let r = R e (self_s ag) a;
     ag1 \<leftarrow> update_qvals c ag (self_s ag) a r s1 False;
     ag2 \<leftarrow> update_experience_buffer e ag1 (self_s ag) a r s1;
     ag3 \<leftarrow> update_action_count ag2 (self_s ag) a;
     let ag4 = update_history ag3 (self_s ag) a r s1;
     (ag5, g3) \<leftarrow> (case num_planning_updates of
                     None \<Rightarrow> Some (ag4, g2)
                   | Some k \<Rightarrow> plan c k (ag4, g2));
     Some (ag5\<lparr>self_s := (if s1 = goal_state e then start_state e else s1)\<rparr>, g3)
   })"

text \<open>
  \<^verbatim>\<open>simulate\<close>: the block under \<^verbatim>\<open>if reset_agent\<close> is \<open>reset\<close>, the \<^verbatim>\<open>for\<close> loop over
  \<^verbatim>\<open>range(num_trials)\<close> is \<open>simulate_loop\<close>. The planning budget \<^verbatim>\<open>None\<close> of the source
  is \<open>None\<close> here.
\<close>

fun simulate_loop ::
  "env \<Rightarrow> config \<Rightarrow> nat option \<Rightarrow> nat \<Rightarrow> agent \<times> rng \<Rightarrow> (agent \<times> rng) option" where
  "simulate_loop e c npu 0 st = Some st"
| "simulate_loop e c npu (Suc n) st = do {
     st' \<leftarrow> real_step e c npu st;
     simulate_loop e c npu n st'
   }"

definition reset :: "env \<Rightarrow> agent \<Rightarrow> agent" where
  "reset e ag =
     (init_action_taken (init_history (init_action_count e
        (init_experience_buffer e (init_q_values e ag)))))\<lparr>self_s := start_state e\<rparr>"

definition simulate ::
  "env \<Rightarrow> config \<Rightarrow> nat \<Rightarrow> bool \<Rightarrow> nat option \<Rightarrow> agent \<times> rng \<Rightarrow> (agent \<times> rng) option" where
  "simulate e c num_trials reset_agent num_planning_updates st = (case st of (ag, g) \<Rightarrow>
     simulate_loop e c num_planning_updates num_trials
       (if reset_agent then reset e ag else ag, g))"

subsection \<open>Well-formed environments and agents\<close>

text \<open>
  What the environment has to provide for a run not to raise: at least one action, a start
  state that is a state, a probability distribution over the states in every row of the
  transition tensor, and rewards whose integer parts fit the 64-bit entries of the
  experience buffer.
\<close>

definition valid_dist :: "nat \<Rightarrow> real list \<Rightarrow> bool" where
  "valid_dist n p \<longleftrightarrow> length p = n \<and> (\<forall>x \<in> set p. 0 \<le> x) \<and> sum_list p = 1"

definition wf_env :: "env \<Rightarrow> bool" where
  "wf_env e \<longleftrightarrow>
     0 < num_actions e \<and> start_state e < num_states e \<and>
     (\<forall>s < num_states e. \<forall>a < num_actions e.
        valid_dist (num_states e) (T e s a) \<and>
        - (2 ^ 63) \<le> trunc (R e s a) \<and> trunc (R e s a) < 2 ^ 63)"

text \<open>
  The shapes of the tables of an agent that has been reset for the environment: the value
  table and the recency counter have one row per state and one column per action, the
  experience buffer has one row per pair, its rows hold states and actions of the
  environment, and the current state is a state.
\<close>

definition shapes_ok :: "env \<Rightarrow> agent \<Rightarrow> bool" where
  "shapes_ok e ag \<longleftrightarrow>
     map length (Q ag) = replicate (num_states e) (num_actions e) \<and>
     map length (action_count ag) = replicate (num_states e) (num_actions e) \<and>
     length (experience_buffer ag) = num_states e * num_actions e \<and>
     (\<forall>(s, a, r, s1) \<in> set (experience_buffer ag).
        s < num_states e \<and> a < num_actions e \<and> s1 < num_states e) \<and>
     self_s ag < num_states e"

text \<open>
  The row of every pair \<open>(s, a)\<close> of the experience buffer carries its own key.
\<close>

definition keys_ok :: "env \<Rightarrow> agent \<Rightarrow> bool" where
  "keys_ok e ag \<longleftrightarrow>
     (\<forall>s < num_states e. \<forall>a < num_actions e.
        fst (experience_buffer ag ! (s * num_actions e + a)) = s \<and>
        fst (snd (experience_buffer ag ! (s * num_actions e + a))) = a)"

subsection \<open>What the history says about a run\<close>

text \<open>
  The pairs chosen by the real steps, oldest first, and the number of real steps since a
  pair was last chosen: the number of pairs logged after its last occurrence, all of them
  when it does not occur.
\<close>

definition chosen_pairs :: "agent \<Rightarrow> (nat \<times> nat) list" where
  "chosen_pairs ag = map (\<lambda>(s, a, r, s1). (s, a)) (history ag)"

definition steps_since :: "nat \<times> nat \<Rightarrow> (nat \<times> nat) list \<Rightarrow> nat" where
  "steps_since p ps = length (takeWhile (\<lambda>q. q \<noteq> p) (rev ps))"

definition count_inv :: "agent \<Rightarrow> bool" where
  "count_inv ag \<longleftrightarrow>
     (\<forall>s < length (action_count ag). \<forall>a < length (action_count ag ! s).
        action_count ag ! s ! a = steps_since (s, a) (chosen_pairs ag))"

text \<open>
  The state a real step moves to after sampling \<open>s1\<close>, and the rows a run from state \<open>s\<close>
  may log: each row starts in the state the previous one moved to, holds an action and a
  next state of the environment, and the reward of the table.
\<close>

definition next_state :: "env \<Rightarrow> nat \<Rightarrow> nat" where
  "next_state e s1 = (if s1 = goal_state e then start_state e else s1)"

fun trace_from :: "env \<Rightarrow> nat \<Rightarrow> history_row list \<Rightarrow> bool" where
  "trace_from e s [] = True"
| "trace_from e s ((s', a, r, s1) # rows) =
     (s' = s \<and> a < num_actions e \<and> s1 < num_states e \<and> r = R e s a \<and>
      trace_from e (next_state e s1) rows)"

fun end_state :: "env \<Rightarrow> nat \<Rightarrow> history_row list \<Rightarrow> nat" where
  "end_state e s [] = s"
| "end_state e s ((s', a, r, s1) # rows) = end_state e (next_state e s1) rows"

subsection \<open>A reference description of a run\<close>

text \<open>
  A second description of a run, in closed formulas over total functions, against which
  the run of the source is compared. The selection: a draw below the number of actions
  when all values of the row are equal, the number of leading values below the maximum
  (the first maximal index) otherwise.
\<close>

definition ref_select :: "real list \<Rightarrow> rng \<Rightarrow> nat \<times> rng" where
  "ref_select row g =
     (if \<forall>x \<in> set row. x = hd row then (shd g mod length row, stl g)
      else (length (takeWhile (\<lambda>x. x < Max (set row)) row), g))"

text \<open>
  The next state: the first state \<open>i\<close> such that the uniform variate is below the
  probability of the states up to \<open>i\<close>.
\<close>

definition ref_sample :: "real list \<Rightarrow> rng \<Rightarrow> nat \<times> rng" where
  "ref_sample p g =
     (length (takeWhile (\<lambda>i. sum_list (take (Suc i) p) \<le> uniform01 (shd g)) [0..<length p]),
      stl g)"

text \<open>
  The value update: the baseline value \<open>q1\<close>, and with the bonus the value \<open>q2\<close> computed
  from \<open>q1\<close> and from the table that holds \<open>q1\<close>.
\<close>

definition ref_update ::
  "config \<Rightarrow> real list list \<Rightarrow> nat list list \<Rightarrow> nat \<Rightarrow> nat \<Rightarrow> real \<Rightarrow> nat \<Rightarrow> bool
     \<Rightarrow> real list list" where
  "ref_update c tab cnt s a r s1 use_bonus =
     (let q = tab ! s ! a;
          q1 = q + alpha c * (r + gamma c * Max (set (tab ! s1)) - q);
          tab1 = tab[s := (tab ! s)[a := q1]];
          q2 = q1 + alpha c * (r + epsilon c * sqrt (real (cnt ! s ! a))
                                 + gamma c * Max (set (tab1 ! s1)) - q1)
      in if use_bonus then tab[s := (tab ! s)[a := q2]] else tab1)"

text \<open>
  The touch of the recency counter, entry by entry: 0 for the chosen pair, one more than
  before for every other pair.
\<close>

definition ref_touch :: "nat list list \<Rightarrow> nat \<Rightarrow> nat \<Rightarrow> nat list list" where
  "ref_touch cnt s a =
     map (\<lambda>i. map (\<lambda>j. if i = s \<and> j = a then 0 else Suc (cnt ! i ! j))
                  [0..<length (cnt ! i)])
         [0..<length cnt]"

text \<open>
  The planning updates: each draws a row of the buffer and applies the update with the
  bonus to it, reading the counter and the buffer and writing the value table only.
\<close>

fun ref_plan ::
  "config \<Rightarrow> nat \<Rightarrow> nat list list \<Rightarrow> buffer_row list \<Rightarrow> real list list \<times> rng
     \<Rightarrow> real list list \<times> rng" where
  "ref_plan c 0 cnt buf (tab, g) = (tab, g)"
| "ref_plan c (Suc k) cnt buf (tab, g) =
     (case buf ! (shd g mod length buf) of (s, a, r, s1) \<Rightarrow>
        ref_plan c k cnt buf (ref_update c tab cnt s a (of_int r) s1 True, stl g))"

text \<open>
  One real step: selection in the current state, next state drawn from the row of the
  transition tensor, reward read from the table, update without bonus, record, touch,
  history, then the planning updates on the recorded buffer and the touched counter, and
  the move to the start state when the next state is the goal. The record writes the
  integer part of the reward, as the integer buffer of the source holds it.
\<close>

definition ref_step :: "env \<Rightarrow> config \<Rightarrow> nat option \<Rightarrow> agent \<times> rng \<Rightarrow> agent \<times> rng" where
  "ref_step e c npu st = (case st of (ag, g) \<Rightarrow>
     let s = self_s ag;
         (a, g1) = ref_select (Q ag ! s) g;
         (s1, g2) = ref_sample (T e s a) g1;
         r = R e s a;
         tab1 = ref_update c (Q ag) (action_count ag) s a r s1 False;
         buf = (experience_buffer ag)[s * num_actions e + a := (s, a, trunc r, s1)];
         cnt = ref_touch (action_count ag) s a;
         (tab2, g3) = (case npu of None \<Rightarrow> (tab1, g2)
                       | Some k \<Rightarrow> ref_plan c k cnt buf (tab1, g2))
     in (ag\<lparr>Q := tab2, experience_buffer := buf, action_count := cnt,
            history := history ag @ [(s, a, r, s1)],
            self_s := (if s1 = goal_state e then start_state e else s1)\<rparr>, g3))"

fun ref_run :: "env \<Rightarrow> config \<Rightarrow> nat option \<Rightarrow> nat \<Rightarrow> agent \<times> rng \<Rightarrow> agent \<times> rng" where
  "ref_run e c npu 0 st = st"
| "ref_run e c npu (Suc n) st = ref_run e c npu n (ref_step e c npu st)"

text \<open>
  The agent after a reset: zero tables, an empty history, and in row \<open>i\<close> of the buffer
  the self-loop of the pair with state \<open>i div num_actions\<close> and action \<open>i mod num_actions\<close>.
\<close>

definition ref_reset :: "env \<Rightarrow> agent" where
  "ref_reset e =
     \<lparr>Q = replicate (num_states e) (replicate (num_actions e) 0),
      experience_buffer =
        map (\<lambda>i. (i div num_actions e, i mod num_actions e, 0, i div num_actions e))
            [0..<num_states e * num_actions e],
      action_count = replicate (num_states e) (replicate (num_actions e) 0),
      history = [],
      action_taken = replicate (num_states e) (replicate (num_actions e) 0),
      self_s = start_state e\<rparr>"

section \<open>Properties\<close>

subsection \<open>Array accesses in range\<close>

lemma np_max_Max: "xs \<noteq> [] \<Longrightarrow> np_max xs = Some (Max (set xs))"
  by (cases xs) (simp_all add: np_max_def flip: Max.set_eq_fold)

lemma get1_Some [simp]: "i < length xs \<Longrightarrow> get1 xs i = Some (xs ! i)"
  by (simp add: get1_def)

lemma get2_Some [simp]: "i < length m \<Longrightarrow> j < length (m ! i) \<Longrightarrow> get2 m i j = Some (m ! i ! j)"
  by (simp add: get2_def)

lemma set2_Some [simp]:
  "i < length m \<Longrightarrow> j < length (m ! i) \<Longrightarrow> set2 m i j v = Some (m[i := (m ! i)[j := v]])"
  by (simp add: set2_def)

subsection \<open>The value-table update\<close>

text \<open>
  C1. With valid indices, an update without the bonus flag replaces \<open>Q[s,a]\<close> by
  \<open>q1 = Q[s,a] + alpha * (r + gamma * max Q[s1] - Q[s,a])\<close> and leaves every other entry as it
  was. An update with the bonus flag changes \<open>Q[s,a]\<close> twice: it first stores \<open>q1\<close>, then
  replaces it by \<open>q1 + alpha * (r + epsilon * sqrt C[s,a] + gamma * max Q1[s1] - q1)\<close>, where
  \<open>Q1\<close> is the table holding \<open>q1\<close> and \<open>C[s,a]\<close> is the recency counter at the time of the
  call.
\<close>

theorem update_qvals_composition:
  assumes "s < length (Q ag)" and "a < length (Q ag ! s)"
    and "s1 < length (Q ag)" and "Q ag ! s1 \<noteq> []"
    and "s < length (action_count ag)" and "a < length (action_count ag ! s)"
  shows "let q0 = Q ag ! s ! a;
             q1 = q0 + alpha c * (r + gamma c * Max (set (Q ag ! s1)) - q0);
             tab1 = (Q ag)[s := (Q ag ! s)[a := q1]];
             q2 = q1 + alpha c * (r + epsilon c * sqrt (real (action_count ag ! s ! a))
                                    + gamma c * Max (set (tab1 ! s1)) - q1)
         in update_qvals c ag s a r s1 False = Some (ag\<lparr>Q := tab1\<rparr>) \<and>
            update_qvals c ag s a r s1 True = Some (ag\<lparr>Q := tab1[s := (tab1 ! s)[a := q2]]\<rparr>)"
proof -
  have ne: "(Q ag)[s := (Q ag ! s)[a := v]] ! s1 \<noteq> []" for v
    using assms by (cases "s1 = s") auto
  show ?thesis
    using assms ne by (simp add: Let_def update_qvals_def np_max_Max)
qed

theorem update_qvals_composition_witness:
  "update_qvals \<lparr>alpha = 1/2, gamma = 1/2, epsilon = 1\<rparr>
     \<lparr>Q = [[0, 0], [1, 2]], experience_buffer = [], action_count = [[4, 0], [0, 0]],
      history = [], action_taken = [], self_s = 0\<rparr> 0 0 1 1 False
   = Some \<lparr>Q = [[1, 0], [1, 2]], experience_buffer = [], action_count = [[4, 0], [0, 0]],
      history = [], action_taken = [], self_s = 0\<rparr> \<and>
   update_qvals \<lparr>alpha = 1/2, gamma = 1/2, epsilon = 1\<rparr>
     \<lparr>Q = [[0, 0], [1, 2]], experience_buffer = [], action_count = [[4, 0], [0, 0]],
      history = [], action_taken = [], self_s = 0\<rparr> 0 0 1 1 True
   = Some \<lparr>Q = [[5/2, 0], [1, 2]], experience_buffer = [], action_count = [[4, 0], [0, 0]],
      history = [], action_taken = [], self_s = 0\<rparr>"
  using update_qvals_composition [of 0 "\<lparr>Q = [[0, 0], [1, 2]], experience_buffer = [], action_count = [[4, 0], [0, 0]],
      history = [], action_taken = [], self_s = 0\<rparr>" 0 1 "\<lparr>alpha = 1/2, gamma = 1/2, epsilon = 1\<rparr>" 1]
  by (simp add: Let_def)

subsection \<open>Performance reporting\<close>

lemma length_cumsum_from: "length (cumsum_from acc xs) = length xs"
  by (induction xs arbitrary: acc) simp_all

lemma nth_cumsum_from:
  "k < length xs \<Longrightarrow> cumsum_from acc xs ! k = acc + sum_list (take (Suc k) xs)"
proof (induction xs arbitrary: acc k)
  case Nil
  then show ?case by simp
next
  case (Cons x xs)
  show ?case
  proof (cases k)
    case 0
    then show ?thesis by simp
  next
    case (Suc j)
    with Cons.prems have "j < length xs" by simp
    from Cons.IH [OF this, of "acc + x"] Suc show ?thesis by simp
  qed
qed

text \<open>
  C7. The performance report has one value per logged transition, and its value at position
  \<open>k\<close> (counting from 0) is the sum of the rewards of the first \<open>k + 1\<close> logged transitions,
  in log order.
\<close>

theorem get_performace_prefix_sums:
  "length (get_performace ag) = length (history ag) \<and>
   (\<forall>k < length (history ag).
      get_performace ag ! k = sum_list (take (Suc k) (map (\<lambda>(s, a, r, s1). r) (history ag))))"
  by (simp add: get_performace_def np_cumsum_def length_cumsum_from nth_cumsum_from)

theorem get_performace_prefix_sums_witness:
  "length (get_performace \<lparr>Q = [], experience_buffer = [], action_count = [],
      history = [(0, 0, 1, 1), (0, 0, - 2, 1), (0, 0, 5/2, 1)], action_taken = [], self_s = 0\<rparr>) = 3 \<and>
   get_performace \<lparr>Q = [], experience_buffer = [], action_count = [],
      history = [(0, 0, 1, 1), (0, 0, - 2, 1), (0, 0, 5/2, 1)], action_taken = [], self_s = 0\<rparr> ! 2 = 3/2"
  using get_performace_prefix_sums [of "\<lparr>Q = [], experience_buffer = [], action_count = [],
      history = [(0, 0, 1, 1), (0, 0, - 2, 1), (0, 0, 5/2, 1)], action_taken = [], self_s = 0\<rparr>"]
  by simp

subsection \<open>Recording into the experience model\<close>

lemma trunc_of_int: "trunc (of_int k) = k"
  by (simp add: trunc_def)

lemma to_int_of_int: "- (2 ^ 63) \<le> k \<Longrightarrow> k < 2 ^ 63 \<Longrightarrow> to_int (of_int k) = Some k"
  by (simp add: to_int_def trunc_of_int)

lemma record_stores_trunc:
  assumes "update_experience_buffer e ag s a r s1 = Some ag'"
  shows "get1 (experience_buffer ag') (s * num_actions e + a) = Some (s, a, trunc r, s1)"
  using assms
  by (auto simp: update_experience_buffer_def to_int_def bind_eq_Some_conv split: if_splits)

text \<open>
  C4. After \<open>record (s, a, r, s1)\<close> a sample that draws the pair \<open>(s, a)\<close> should return
  \<open>(s, a, r, s1)\<close> with the reward as recorded. The source does so for a reward that is an
  integer only: the history and the update of the real step keep the reward \<open>1/2\<close>, but
  the buffer is an integer array and stores 0, so the planning update that draws the row
  replays the reward 0. After one real step with reward \<open>1/2\<close> and one planning update the
  history holds \<open>1/2\<close>, the buffer holds 0, and the value \<open>1/4\<close> learnt by the real step
  has been pulled down to \<open>1/16\<close>.
\<close>

theorem record_drops_fraction:
  "update_experience_buffer
     \<lparr>num_states = 2, num_actions = 1, start_state = 0, goal_state = 1,
      T = (\<lambda>s a. [0, 1]), R = (\<lambda>s a. 1/2)\<rparr>
     \<lparr>Q = [[1/4], [0]], experience_buffer = [(0, 0, 0, 0), (1, 0, 0, 1)],
      action_count = [[0], [0]], history = [], action_taken = [[0], [0]], self_s = 0\<rparr>
     0 0 (1/2) 1
   = Some \<lparr>Q = [[1/4], [0]], experience_buffer = [(0, 0, 0, 1), (1, 0, 0, 1)],
      action_count = [[0], [0]], history = [], action_taken = [[0], [0]], self_s = 0\<rparr> \<and>
   simulate
     \<lparr>num_states = 2, num_actions = 1, start_state = 0, goal_state = 1,
      T = (\<lambda>s a. [0, 1]), R = (\<lambda>s a. 1/2)\<rparr>
     \<lparr>alpha = 1/2, gamma = 1/2, epsilon = 1\<rparr> 1 True (Some 1)
     (\<lparr>Q = [], experience_buffer = [], action_count = [], history = [],
       action_taken = [], self_s = 0\<rparr>, sconst 0)
   = Some (\<lparr>Q = [[1/16], [0]], experience_buffer = [(0, 0, 0, 1), (1, 0, 0, 1)],
            action_count = [[0], [1]], history = [(0, 0, 1/2, 1)],
            action_taken = [[0], [0]], self_s = 0\<rparr>, sconst 0)"
  by (simp add: simulate_def reset_def init_q_values_def init_experience_buffer_def
      init_action_count_def init_history_def init_action_taken_def np_zeros_def
      numeral_2_eq_2 real_step_def policy_def np_unique_def random_below_def
      random_choice_p_def np_cumsum_def uniform01_def update_qvals_def np_max_def
      update_experience_buffer_def to_int_def trunc_def update_action_count_def
      update_history_def)

subsection \<open>The policy\<close>

lemma argmax_scan_first_max:
  assumes "bi < length ys" and "ys ! bi = bv" and "\<forall>y \<in> set ys. y \<le> bv"
    and "\<forall>j < bi. ys ! j < bv" and "i = length ys"
  shows "argmax_scan bi bv i xs < length (ys @ xs) \<and>
         (\<forall>y \<in> set (ys @ xs). y \<le> (ys @ xs) ! argmax_scan bi bv i xs) \<and>
         (\<forall>j < argmax_scan bi bv i xs. (ys @ xs) ! j < (ys @ xs) ! argmax_scan bi bv i xs)"
  using assms
proof (induction xs arbitrary: ys bi bv i)
  case Nil
  then show ?case by simp
next
  case (Cons x xs)
  show ?case
  proof (cases "bv < x")
    case True
    have "\<forall>j < i. (ys @ [x]) ! j < x"
    proof (intro allI impI)
      fix j assume "j < i"
      with Cons.prems have "ys ! j \<in> set ys" and "(ys @ [x]) ! j = ys ! j"
        by (simp_all add: nth_append)
      with Cons.prems True show "(ys @ [x]) ! j < x" by fastforce
    qed
    moreover have "\<forall>y \<in> set (ys @ [x]). y \<le> x"
      using Cons.prems True by fastforce
    ultimately have "argmax_scan i x (Suc i) xs < length ((ys @ [x]) @ xs) \<and>
         (\<forall>y \<in> set ((ys @ [x]) @ xs). y \<le> ((ys @ [x]) @ xs) ! argmax_scan i x (Suc i) xs) \<and>
         (\<forall>j < argmax_scan i x (Suc i) xs.
             ((ys @ [x]) @ xs) ! j < ((ys @ [x]) @ xs) ! argmax_scan i x (Suc i) xs)"
      using Cons.prems by (intro Cons.IH) simp_all
    with True show ?thesis by simp
  next
    case False
    have "argmax_scan bi bv (Suc i) xs < length ((ys @ [x]) @ xs) \<and>
         (\<forall>y \<in> set ((ys @ [x]) @ xs). y \<le> ((ys @ [x]) @ xs) ! argmax_scan bi bv (Suc i) xs) \<and>
         (\<forall>j < argmax_scan bi bv (Suc i) xs.
             ((ys @ [x]) @ xs) ! j < ((ys @ [x]) @ xs) ! argmax_scan bi bv (Suc i) xs)"
      using Cons.prems False by (intro Cons.IH) (auto simp: nth_append)
    with False show ?thesis by simp
  qed
qed

lemma np_argmax_first_max:
  assumes "xs \<noteq> []"
  shows "\<exists>a. np_argmax xs = Some a \<and> a < length xs \<and> xs ! a = Max (set xs) \<and>
             (\<forall>j < a. xs ! j < xs ! a)"
proof -
  from assms obtain x ys where xs: "xs = x # ys" by (cases xs) auto
  define a where "a = argmax_scan 0 x 1 ys"
  have *: "a < length ([x] @ ys) \<and> (\<forall>y \<in> set ([x] @ ys). y \<le> ([x] @ ys) ! a) \<and>
        (\<forall>j < a. ([x] @ ys) ! j < ([x] @ ys) ! a)"
    unfolding a_def by (rule argmax_scan_first_max) simp_all
  then have "a < length xs" and le: "\<forall>y \<in> set xs. y \<le> xs ! a" and lt: "\<forall>j < a. xs ! j < xs ! a"
    by (simp_all add: xs)
  then have "Max (set xs) = xs ! a"
    by (intro Max_eqI) auto
  with \<open>a < length xs\<close> lt show ?thesis
    by (simp add: np_argmax_def xs a_def)
qed

lemma all_unique_iff:
  "list_all (\<lambda>x. x = q) (np_unique xs) \<longleftrightarrow> (\<forall>i < length xs. xs ! i = q)"
  by (simp add: np_unique_def list_all_iff all_set_conv_all_nth)

text \<open>
  C5. For a state with a non-empty row of the value table: when all values of the row are
  equal, the policy returns a random draw below the number of actions (it consumes one draw
  of the generator, and every action is the result for some draw); in every other case it
  leaves the generator alone and returns the first index at which the row attains its
  maximum. That the draw is uniform is a property of \<^verbatim>\<open>np.random.choice\<close>, outside
  the model.
\<close>

theorem policy_selection:
  assumes "s < length (Q ag)" and "Q ag ! s \<noteq> []"
  shows "((\<forall>i < length (Q ag ! s). \<forall>j < length (Q ag ! s). Q ag ! s ! i = Q ag ! s ! j) \<longrightarrow>
            policy ag s g = Some (shd g mod length (Q ag ! s), stl g) \<and>
            (\<forall>a < length (Q ag ! s). policy ag s (a ## g) = Some (a, g))) \<and>
         (\<not> (\<forall>i < length (Q ag ! s). \<forall>j < length (Q ag ! s). Q ag ! s ! i = Q ag ! s ! j) \<longrightarrow>
            (\<exists>a. policy ag s g = Some (a, g) \<and> a < length (Q ag ! s) \<and>
                 Q ag ! s ! a = Max (set (Q ag ! s)) \<and>
                 (\<forall>j < a. Q ag ! s ! j < Q ag ! s ! a)))"
proof -
  define row where "row = Q ag ! s"
  define same where "same \<longleftrightarrow> (\<forall>i < length row. row ! i = row ! 0)"
  from assms have ne: "row \<noteq> []" and pos: "0 < length row"
    by (simp_all add: row_def)
  have eq: "(\<forall>i < length row. \<forall>j < length row. row ! i = row ! j) \<longleftrightarrow> same"
    unfolding same_def
  proof
    assume "\<forall>i < length row. \<forall>j < length row. row ! i = row ! j"
    with pos show "\<forall>i < length row. row ! i = row ! 0" by blast
  next
    assume *: "\<forall>i < length row. row ! i = row ! 0"
    show "\<forall>i < length row. \<forall>j < length row. row ! i = row ! j"
    proof (intro allI impI)
      fix i j assume "i < length row" and "j < length row"
      with * have "row ! i = row ! 0" and "row ! j = row ! 0" by blast+
      then show "row ! i = row ! j" by simp
    qed
  qed
  have un: "list_all (\<lambda>x. x = row ! 0) (np_unique row) \<longleftrightarrow> same"
    unfolding same_def by (rule all_unique_iff)
  have pol: "policy ag s h =
      (if same then random_below (length row) h else do { a \<leftarrow> np_argmax row; Some (a, h) })"
    for h
    using assms pos un by (simp add: policy_def flip: row_def)
  have "policy ag s g = Some (shd g mod length row, stl g) \<and>
        (\<forall>a < length row. policy ag s (a ## g) = Some (a, g))" if same
    using pol that ne by (simp add: random_below_def)
  moreover have "\<exists>a. policy ag s g = Some (a, g) \<and> a < length row \<and>
        row ! a = Max (set row) \<and> (\<forall>j < a. row ! j < row ! a)" if "\<not> same"
  proof -
    from np_argmax_first_max [OF ne] obtain a where a: "np_argmax row = Some a"
      and *: "a < length row" "row ! a = Max (set row)" "\<forall>j < a. row ! j < row ! a"
      by blast
    from a have "policy ag s g = Some (a, g)"
      using pol [of g] that by simp
    with * show ?thesis by blast
  qed
  ultimately show ?thesis
    unfolding row_def [symmetric] eq by blast
qed

theorem policy_selection_witness:
  "policy \<lparr>Q = [[1, 3, 3], [0, 0, 0]], experience_buffer = [], action_count = [],
      history = [], action_taken = [], self_s = 0\<rparr> 1 (sconst 5) = Some (2, sconst 5) \<and>
   policy \<lparr>Q = [[1, 3, 3], [0, 0, 0]], experience_buffer = [], action_count = [],
      history = [], action_taken = [], self_s = 0\<rparr> 0 (sconst 5) = Some (1, sconst 5)"
proof -
  let ?A = "\<lparr>Q = [[1, 3, 3], [0, 0, 0]], experience_buffer = [], action_count = [],
      history = [], action_taken = [], self_s = 0\<rparr>"
  have h1: "1 < length (Q ?A)" and h2: "Q ?A ! 1 \<noteq> []"
    by simp_all
  have same: "\<forall>i < length (Q ?A ! 1). \<forall>j < length (Q ?A ! 1). Q ?A ! 1 ! i = Q ?A ! 1 ! j"
    by (auto simp: less_Suc_eq)
  from policy_selection [OF h1 h2, of "sconst 5"]
  have "(\<forall>i < length (Q ?A ! 1). \<forall>j < length (Q ?A ! 1). Q ?A ! 1 ! i = Q ?A ! 1 ! j) \<longrightarrow>
        policy ?A 1 (sconst 5) = Some (shd (sconst 5) mod length (Q ?A ! 1), stl (sconst 5)) \<and>
        (\<forall>a < length (Q ?A ! 1). policy ?A 1 (a ## sconst 5) = Some (a, sconst 5))"
    by (rule conjunct1)
  from this same
  have "policy ?A 1 (sconst 5) = Some (shd (sconst 5) mod length (Q ?A ! 1), stl (sconst 5)) \<and>
        (\<forall>a < length (Q ?A ! 1). policy ?A 1 (a ## sconst 5) = Some (a, sconst 5))"
    by (rule mp)
  then have "policy ?A 1 (sconst 5) = Some (shd (sconst 5) mod length (Q ?A ! 1), stl (sconst 5))"
    by (rule conjunct1)
  then have "policy ?A 1 (sconst 5) = Some (2, sconst 5)"
    by simp
  moreover have "policy ?A 0 (sconst 5) = Some (1, sconst 5)"
    by (simp add: policy_def np_unique_def np_argmax_def)
  ultimately show ?thesis by (rule conjI)
qed

subsection \<open>Planning writes the value table only\<close>

lemma update_qvals_frame:
  "update_qvals c ag s a r s1 b = Some ag' \<Longrightarrow> ag' = ag\<lparr>Q := Q ag'\<rparr>"
  by (auto simp: update_qvals_def bind_eq_Some_conv Let_def split: if_splits)

lemma plan_frame: "plan c k (ag, g) = Some (ag', g') \<Longrightarrow> ag' = ag\<lparr>Q := Q ag'\<rparr>"
proof (induction k arbitrary: ag g)
  case 0
  then show ?case by simp
next
  case (Suc k)
  then obtain i g1 s a r s1 ag1 where "update_qvals c ag s a (of_int r) s1 True = Some ag1"
    and "plan c k (ag1, g1) = Some (ag', g')"
    by (auto simp: bind_eq_Some_conv)
  with Suc.IH [of ag1 g1] update_qvals_frame [of c ag s a "of_int r" s1 True ag1]
  have "ag' = ag1\<lparr>Q := Q ag'\<rparr>" and "ag1 = ag\<lparr>Q := Q ag1\<rparr>" by simp_all
  then have "ag' = ag\<lparr>Q := Q ag1\<rparr>\<lparr>Q := Q ag'\<rparr>" by simp
  then show ?case by simp
qed

text \<open>
  C8. Whatever the planning budget, the planning updates leave the experience model, the
  recency counter, the history and the current real state as they were: the agent after
  planning is the agent before it with another value table.
\<close>

theorem plan_writes_only_Q:
  assumes "plan c k (ag, g) = Some (ag', g')"
  shows "experience_buffer ag' = experience_buffer ag \<and> action_count ag' = action_count ag \<and>
         history ag' = history ag \<and> self_s ag' = self_s ag \<and> ag' = ag\<lparr>Q := Q ag'\<rparr>"
proof -
  from plan_frame [OF assms] have eq: "ag' = ag\<lparr>Q := Q ag'\<rparr>" .
  have "experience_buffer (ag\<lparr>Q := Q ag'\<rparr>) = experience_buffer ag"
    "action_count (ag\<lparr>Q := Q ag'\<rparr>) = action_count ag"
    "history (ag\<lparr>Q := Q ag'\<rparr>) = history ag" "self_s (ag\<lparr>Q := Q ag'\<rparr>) = self_s ag"
    by simp_all
  with eq show ?thesis by metis
qed

theorem plan_writes_only_Q_witness:
  "plan \<lparr>alpha = 1/2, gamma = 1/2, epsilon = 1\<rparr> (Suc (Suc 0))
     (\<lparr>Q = [[0], [0]], experience_buffer = [(0, 0, 1, 1), (1, 0, 0, 1)],
      action_count = [[0], [3]], history = [(0, 0, 1, 1)], action_taken = [[0], [0]], self_s = 0\<rparr>,
      sconst 0)
   = Some (\<lparr>Q = [[15/16], [0]], experience_buffer = [(0, 0, 1, 1), (1, 0, 0, 1)],
      action_count = [[0], [3]], history = [(0, 0, 1, 1)], action_taken = [[0], [0]], self_s = 0\<rparr>,
      sconst 0)"
  using plan_writes_only_Q [of "\<lparr>alpha = 1/2, gamma = 1/2, epsilon = 1\<rparr>" "Suc (Suc 0)"
     "\<lparr>Q = [[0], [0]], experience_buffer = [(0, 0, 1, 1), (1, 0, 0, 1)],
      action_count = [[0], [3]], history = [(0, 0, 1, 1)], action_taken = [[0], [0]], self_s = 0\<rparr>"
     "sconst 0"]
  by (simp add: random_below_def update_qvals_def np_max_def)

subsection \<open>Every operation of a real step returns on a well-formed agent\<close>

lemma pair_index_less: "s < n \<Longrightarrow> a < k \<Longrightarrow> s * k + a < n * (k::nat)"
proof -
  assume "s < n" and "a < k"
  then have "s * k + a < Suc s * k" and "Suc s \<le> n" by simp_all
  moreover from \<open>Suc s \<le> n\<close> have "Suc s * k \<le> n * k" by (rule mult_le_mono1)
  ultimately show ?thesis by linarith
qed

lemma pair_index_inj:
  assumes "a < k" and "a' < k" and "s * k + a = s' * k + (a'::nat)"
  shows "s = s' \<and> a = a'"
proof -
  from assms(1,2) have "(s * k + a) div k = s" and "(s' * k + a') div k = s'"
    and "(s * k + a) mod k = a" and "(s' * k + a') mod k = a'"
    by simp_all
  with assms(3) show ?thesis by metis
qed

lemma shape_row: "map length m = replicate n k \<Longrightarrow> i < n \<Longrightarrow> i < length m \<and> length (m ! i) = k"
proof -
  assume m: "map length m = replicate n k" and i: "i < n"
  from m have "length (map length m) = n" by simp
  then have len: "length m = n" by simp
  with i have "map length m ! i = length (m ! i)" by simp
  with m i len show ?thesis by simp
qed

lemma shape_update:
  "map length (m[i := (m ! i)[j := v]]) = map length m"
  by (cases "i < length m") (simp_all add: map_update list_update_same_conv list_update_beyond)

lemma takeWhile_stops_early:
  assumes "x \<in> set xs" and "\<not> P x"
  shows "length (takeWhile P xs) < length xs"
  using assms by (induction xs) auto

lemma uniform01_less_1: "uniform01 x < 1"
  by (simp add: uniform01_def)

lemma random_choice_p_total:
  assumes "valid_dist n p" and "0 < n"
  shows "\<exists>s1. random_choice_p n p g = Some (s1, stl g) \<and> s1 < n"
proof -
  from assms have len: "length p = n" and nonneg: "\<forall>x \<in> set p. 0 \<le> x" and one: "sum_list p = 1"
    by (simp_all add: valid_dist_def)
  let ?cs = "np_cumsum p"
  have lcs: "length ?cs = n"
    by (simp add: np_cumsum_def length_cumsum_from len)
  from assms len have "n - 1 < length p" by simp
  then have "?cs ! (n - 1) = 0 + sum_list (take (Suc (n - 1)) p)"
    unfolding np_cumsum_def by (rule nth_cumsum_from)
  with assms len one have "?cs ! (n - 1) = 1" by simp
  moreover from assms lcs have "?cs ! (n - 1) \<in> set ?cs" by simp
  ultimately have "?cs ! (n - 1) \<in> set ?cs" and "\<not> ?cs ! (n - 1) \<le> uniform01 (shd g)"
    using uniform01_less_1 [of "shd g"] by simp_all
  then have "length (takeWhile (\<lambda>c. c \<le> uniform01 (shd g)) ?cs) < length ?cs"
    by (rule takeWhile_stops_early)
  with lcs assms len nonneg one show ?thesis
    by (auto simp: random_choice_p_def not_less)
qed

lemma policy_total:
  assumes "s < length (Q ag)" and "Q ag ! s \<noteq> []"
  shows "\<exists>a g1. policy ag s g = Some (a, g1) \<and> a < length (Q ag ! s)"
proof (cases "list_all (\<lambda>x. x = Q ag ! s ! 0) (np_unique (Q ag ! s))")
  case True
  with assms show ?thesis
    by (simp add: policy_def random_below_def)
next
  case False
  from np_argmax_first_max [OF assms(2)] obtain a
    where "np_argmax (Q ag ! s) = Some a" and "a < length (Q ag ! s)"
    by blast
  with assms False show ?thesis
    by (simp add: policy_def)
qed

lemma update_qvals_total:
  assumes "s < length (Q ag)" and "a < length (Q ag ! s)"
    and "s1 < length (Q ag)" and "Q ag ! s1 \<noteq> []"
    and "b \<longrightarrow> s < length (action_count ag) \<and> a < length (action_count ag ! s)"
  shows "\<exists>ag'. update_qvals c ag s a r s1 b = Some ag' \<and> ag' = ag\<lparr>Q := Q ag'\<rparr> \<and>
               map length (Q ag') = map length (Q ag)"
proof -
  have ne: "(Q ag)[s := (Q ag ! s)[a := v]] ! s1 \<noteq> []" for v
    using assms by (cases "s1 = s") auto
  show ?thesis
  proof (cases b)
    case True
    with assms ne show ?thesis
      by (simp add: update_qvals_def np_max_Max shape_update)
  next
    case False
    with assms show ?thesis
      by (simp add: update_qvals_def np_max_Max shape_update)
  qed
qed

lemma update_qvals_tab:
  assumes "s < length (Q ag)" and "a < length (Q ag ! s)"
    and "s1 < length (Q ag)" and "Q ag ! s1 \<noteq> []"
    and "b \<longrightarrow> s < length (action_count ag) \<and> a < length (action_count ag ! s)"
  shows "\<exists>tab. update_qvals c ag s a r s1 b = Some (ag\<lparr>Q := tab\<rparr>) \<and>
               map length tab = map length (Q ag)"
proof -
  from update_qvals_total [OF assms] obtain ag'
    where "update_qvals c ag s a r s1 b = Some ag'" and "ag' = ag\<lparr>Q := Q ag'\<rparr>"
      and "map length (Q ag') = map length (Q ag)"
    by blast
  then have "update_qvals c ag s a r s1 b = Some (ag\<lparr>Q := Q ag'\<rparr>) \<and>
             map length (Q ag') = map length (Q ag)"
    by metis
  then show ?thesis ..
qed

lemma shapes_ok_Q:
  "shapes_ok e ag \<Longrightarrow> map length tab = map length (Q ag) \<Longrightarrow> shapes_ok e (ag\<lparr>Q := tab\<rparr>)"
  by (simp add: shapes_ok_def)

lemma shapes_ok_buffer_row:
  assumes "shapes_ok e ag" and "i < length (experience_buffer ag)"
    and "experience_buffer ag ! i = (s, a, r, s1)"
  shows "s < num_states e \<and> a < num_actions e \<and> s1 < num_states e"
proof -
  from assms(2,3) have "(s, a, r, s1) \<in> set (experience_buffer ag)"
    by (metis nth_mem)
  with assms(1) show ?thesis
    by (auto simp: shapes_ok_def)
qed

lemma plan_total:
  assumes "shapes_ok e ag" and "0 < num_states e * num_actions e"
  shows "\<exists>tab g'. plan c k (ag, g) = Some (ag\<lparr>Q := tab\<rparr>, g') \<and>
                  map length tab = map length (Q ag)"
  using assms(1)
proof (induction k arbitrary: ag g)
  case 0
  have "plan c 0 (ag, g) = Some (ag\<lparr>Q := Q ag\<rparr>, g) \<and> map length (Q ag) = map length (Q ag)"
    by simp
  then show ?case by blast
next
  case (Suc k)
  let ?n = "length (experience_buffer ag)"
  from Suc.prems assms(2) have n: "?n = num_states e * num_actions e" and pos: "0 < ?n"
    by (simp_all add: shapes_ok_def)
  define i where "i = shd g mod ?n"
  from pos have i: "i < ?n" by (simp add: i_def)
  obtain s a r s1 where row: "experience_buffer ag ! i = (s, a, r, s1)"
    by (cases "experience_buffer ag ! i") auto
  from shapes_ok_buffer_row [OF Suc.prems i row]
  have s: "s < num_states e" and a: "a < num_actions e" and s1: "s1 < num_states e"
    by simp_all
  from Suc.prems have shQ: "map length (Q ag) = replicate (num_states e) (num_actions e)"
    and shC: "map length (action_count ag) = replicate (num_states e) (num_actions e)"
    by (simp_all add: shapes_ok_def)
  from shape_row [OF shQ s] shape_row [OF shQ s1] shape_row [OF shC s] a
  have "s < length (Q ag)" and "a < length (Q ag ! s)" and "s1 < length (Q ag)"
    and "Q ag ! s1 \<noteq> []"
    and "True \<longrightarrow> s < length (action_count ag) \<and> a < length (action_count ag ! s)"
    by auto
  from update_qvals_tab [OF this, of c "of_int r"] obtain tab1
    where u: "update_qvals c ag s a (of_int r) s1 True = Some (ag\<lparr>Q := tab1\<rparr>)"
      and sh1: "map length tab1 = map length (Q ag)"
    by blast
  from Suc.prems sh1 have "shapes_ok e (ag\<lparr>Q := tab1\<rparr>)"
    by (rule shapes_ok_Q)
  from Suc.IH [OF this, of "stl g"] obtain tab g'
    where p: "plan c k (ag\<lparr>Q := tab1\<rparr>, stl g) = Some (ag\<lparr>Q := tab1\<rparr>\<lparr>Q := tab\<rparr>, g')"
      and sh: "map length tab = map length (Q (ag\<lparr>Q := tab1\<rparr>))"
    by blast
  have "plan c (Suc k) (ag, g) = Some (ag\<lparr>Q := tab\<rparr>, g')"
    using pos i row u p by (simp add: random_below_def i_def)
  moreover from sh sh1 have "map length tab = map length (Q ag)" by simp
  ultimately show ?case by blast
qed

lemma real_step_spec:
  assumes "wf_env e" and "shapes_ok e ag"
  shows "\<exists>a s1 tab g'. a < num_actions e \<and> s1 < num_states e \<and>
           map length tab = map length (Q ag) \<and>
           real_step e c npu (ag, g) =
             Some (ag\<lparr>Q := tab,
                      experience_buffer := (experience_buffer ag)
                        [self_s ag * num_actions e + a :=
                           (self_s ag, a, trunc (R e (self_s ag) a), s1)],
                      action_count := (map (map Suc) (action_count ag))
                        [self_s ag := (map Suc (action_count ag ! self_s ag))[a := 0]],
                      history := history ag @ [(self_s ag, a, R e (self_s ag) a, s1)],
                      self_s := next_state e s1\<rparr>, g')"
proof -
  let ?s = "self_s ag"
  from assms have na: "0 < num_actions e" and ns: "0 < num_states e"
    and s: "?s < num_states e"
    and shQ: "map length (Q ag) = replicate (num_states e) (num_actions e)"
    and shC: "map length (action_count ag) = replicate (num_states e) (num_actions e)"
    and lenB: "length (experience_buffer ag) = num_states e * num_actions e"
    by (auto simp: wf_env_def shapes_ok_def)
  from shape_row [OF shQ s] na have sQ: "?s < length (Q ag)" and rowQ: "length (Q ag ! ?s) = num_actions e"
    and "Q ag ! ?s \<noteq> []"
    by auto
  from policy_total [OF sQ this(3), of g] rowQ obtain a g1
    where pol: "policy ag ?s g = Some (a, g1)" and a: "a < num_actions e"
    by auto
  from assms(1) s a have "valid_dist (num_states e) (T e ?s a)"
    by (simp add: wf_env_def)
  from random_choice_p_total [OF this ns, of g1] obtain s1
    where smp: "random_choice_p (num_states e) (T e ?s a) g1 = Some (s1, stl g1)"
      and s1: "s1 < num_states e"
    by blast
  let ?r = "R e ?s a"
  from shape_row [OF shQ s1] na rowQ a sQ
  have "?s < length (Q ag)" and "a < length (Q ag ! ?s)" and "s1 < length (Q ag)"
    and "Q ag ! s1 \<noteq> []"
    and "False \<longrightarrow> ?s < length (action_count ag) \<and> a < length (action_count ag ! ?s)"
    by auto
  from update_qvals_tab [OF this, of c ?r] obtain tab1
    where upd: "update_qvals c ag ?s a ?r s1 False = Some (ag\<lparr>Q := tab1\<rparr>)"
      and sh1: "map length tab1 = map length (Q ag)"
    by blast
  define ag2 where "ag2 = ag\<lparr>Q := tab1, experience_buffer := (experience_buffer ag)
       [?s * num_actions e + a := (?s, a, trunc ?r, s1)]\<rparr>"
  from assms(1) s a have "to_int ?r = Some (trunc ?r)"
    by (simp add: wf_env_def to_int_def)
  with pair_index_less [OF s a] lenB
  have rec: "update_experience_buffer e (ag\<lparr>Q := tab1\<rparr>) ?s a ?r s1 = Some ag2"
    by (simp add: update_experience_buffer_def ag2_def)
  define ag3 where "ag3 = ag2\<lparr>action_count := (map (map Suc) (action_count ag))
       [?s := (map Suc (action_count ag ! ?s))[a := 0]]\<rparr>"
  from shape_row [OF shC s] a
  have touch: "update_action_count ag2 ?s a = Some ag3"
    by (simp add: update_action_count_def ag2_def ag3_def)
  define ag4 where "ag4 = update_history ag3 ?s a ?r s1"
  have "set (experience_buffer ag4) \<subseteq>
          insert (?s, a, trunc ?r, s1) (set (experience_buffer ag))"
    by (simp add: ag4_def ag3_def ag2_def update_history_def set_update_subset_insert)
  with assms(2) s a s1 have rows: "\<forall>(s, a, r, s1) \<in> set (experience_buffer ag4).
      s < num_states e \<and> a < num_actions e \<and> s1 < num_states e"
    by (auto simp: shapes_ok_def)
  have "map length (action_count ag4) = map length (map (map Suc) (action_count ag))"
    using shape_update [of "map (map Suc) (action_count ag)" ?s a 0] shape_row [OF shC s]
    by (simp add: ag4_def ag3_def ag2_def update_history_def)
  with shC have shC4: "map length (action_count ag4) = replicate (num_states e) (num_actions e)"
    by (simp add: comp_def)
  from rows shC4 sh1 shQ lenB s have sh4: "shapes_ok e ag4"
    by (simp add: shapes_ok_def ag4_def ag3_def ag2_def update_history_def)
  have "\<exists>tab g'. (case npu of None \<Rightarrow> Some (ag4, stl g1) | Some k \<Rightarrow> plan c k (ag4, stl g1))
           = Some (ag4\<lparr>Q := tab\<rparr>, g') \<and> map length tab = map length (Q ag4)"
  proof (cases npu)
    case None
    then have "(case npu of None \<Rightarrow> Some (ag4, stl g1) | Some k \<Rightarrow> plan c k (ag4, stl g1))
           = Some (ag4\<lparr>Q := Q ag4\<rparr>, stl g1) \<and> map length (Q ag4) = map length (Q ag4)"
      by simp
    then show ?thesis by blast
  next
    case (Some k)
    from ns na have "0 < num_states e * num_actions e" by simp
    from plan_total [OF sh4 this, of c k "stl g1"] Some show ?thesis by simp
  qed
  then obtain tab g' where pl: "(case npu of None \<Rightarrow> Some (ag4, stl g1)
           | Some k \<Rightarrow> plan c k (ag4, stl g1)) = Some (ag4\<lparr>Q := tab\<rparr>, g')"
    and sh5: "map length tab = map length (Q ag4)"
    by blast
  have "real_step e c npu (ag, g) = Some (ag4\<lparr>Q := tab\<rparr>\<lparr>self_s := next_state e s1\<rparr>, g')"
    using pol smp upd rec touch pl
    by (simp add: real_step_def next_state_def flip: ag4_def)
  moreover have "ag4\<lparr>Q := tab\<rparr>\<lparr>self_s := next_state e s1\<rparr> =
      ag\<lparr>Q := tab,
         experience_buffer := (experience_buffer ag)
           [?s * num_actions e + a := (?s, a, trunc ?r, s1)],
         action_count := (map (map Suc) (action_count ag))
           [?s := (map Suc (action_count ag ! ?s))[a := 0]],
         history := history ag @ [(?s, a, ?r, s1)],
         self_s := next_state e s1\<rparr>"
    by (simp add: ag4_def ag3_def ag2_def update_history_def)
  moreover from sh5 sh1 have "map length tab = map length (Q ag)"
    by (simp add: ag4_def ag3_def ag2_def update_history_def)
  ultimately show ?thesis
    using a s1 by metis
qed

subsection \<open>One real step and the loop\<close>

lemma real_step_run:
  assumes "wf_env e" and "shapes_ok e ag"
  shows "\<exists>ag' g' a s1. real_step e c npu (ag, g) = Some (ag', g') \<and> shapes_ok e ag' \<and>
           a < num_actions e \<and> s1 < num_states e \<and>
           experience_buffer ag' = (experience_buffer ag)
             [self_s ag * num_actions e + a := (self_s ag, a, trunc (R e (self_s ag) a), s1)] \<and>
           action_count ag' = (map (map Suc) (action_count ag))
             [self_s ag := (map Suc (action_count ag ! self_s ag))[a := 0]] \<and>
           history ag' = history ag @ [(self_s ag, a, R e (self_s ag) a, s1)] \<and>
           self_s ag' = next_state e s1"
proof -
  let ?s = "self_s ag"
  from real_step_spec [OF assms, of c npu g] obtain a s1 tab g'
    where a: "a < num_actions e" and s1: "s1 < num_states e"
      and tab: "map length tab = map length (Q ag)"
      and step: "real_step e c npu (ag, g) =
             Some (ag\<lparr>Q := tab,
                      experience_buffer := (experience_buffer ag)
                        [?s * num_actions e + a := (?s, a, trunc (R e ?s a), s1)],
                      action_count := (map (map Suc) (action_count ag))
                        [?s := (map Suc (action_count ag ! ?s))[a := 0]],
                      history := history ag @ [(?s, a, R e ?s a, s1)],
                      self_s := next_state e s1\<rparr>, g')"
    by blast
  define ag' where "ag' = ag\<lparr>Q := tab,
                      experience_buffer := (experience_buffer ag)
                        [?s * num_actions e + a := (?s, a, trunc (R e ?s a), s1)],
                      action_count := (map (map Suc) (action_count ag))
                        [?s := (map Suc (action_count ag ! ?s))[a := 0]],
                      history := history ag @ [(?s, a, R e ?s a, s1)],
                      self_s := next_state e s1\<rparr>"
  from assms have s: "?s < num_states e" and st: "start_state e < num_states e"
    and shQ: "map length (Q ag) = replicate (num_states e) (num_actions e)"
    and shC: "map length (action_count ag) = replicate (num_states e) (num_actions e)"
    and lenB: "length (experience_buffer ag) = num_states e * num_actions e"
    by (auto simp: wf_env_def shapes_ok_def)
  have "set (experience_buffer ag') \<subseteq>
          insert (?s, a, trunc (R e ?s a), s1) (set (experience_buffer ag))"
    by (simp add: ag'_def set_update_subset_insert)
  with assms(2) s a s1 have rows: "\<forall>(s, a, r, s1) \<in> set (experience_buffer ag').
      s < num_states e \<and> a < num_actions e \<and> s1 < num_states e"
    by (auto simp: shapes_ok_def)
  have "map length (action_count ag') = map length (map (map Suc) (action_count ag))"
    using shape_update [of "map (map Suc) (action_count ag)" ?s a 0] shape_row [OF shC s]
    by (simp add: ag'_def)
  with shC have shC': "map length (action_count ag') = replicate (num_states e) (num_actions e)"
    by (simp add: comp_def)
  from s1 st have "next_state e s1 < num_states e"
    by (simp add: next_state_def)
  with rows shC' tab shQ lenB have "shapes_ok e ag'"
    by (simp add: shapes_ok_def ag'_def)
  moreover from step have "real_step e c npu (ag, g) = Some (ag', g')"
    by (simp add: ag'_def)
  moreover have "experience_buffer ag' = (experience_buffer ag)
             [?s * num_actions e + a := (?s, a, trunc (R e ?s a), s1)]"
    and "action_count ag' = (map (map Suc) (action_count ag))
             [?s := (map Suc (action_count ag ! ?s))[a := 0]]"
    and "history ag' = history ag @ [(?s, a, R e ?s a, s1)]"
    and "self_s ag' = next_state e s1"
    by (simp_all add: ag'_def)
  ultimately show ?thesis
    using a s1 by blast
qed

lemma simulate_loop_invariant:
  assumes "wf_env e" and "shapes_ok e ag" and "P ag"
    and step: "\<And>ag g ag' g'. shapes_ok e ag \<Longrightarrow> P ag \<Longrightarrow>
                 real_step e c npu (ag, g) = Some (ag', g') \<Longrightarrow> P ag'"
  shows "\<exists>ag' g'. simulate_loop e c npu n (ag, g) = Some (ag', g') \<and> shapes_ok e ag' \<and> P ag'"
  using assms(2,3)
proof (induction n arbitrary: ag g)
  case 0
  then show ?case by simp
next
  case (Suc n)
  from real_step_run [OF assms(1) Suc.prems(1), of c npu g] obtain ag1 g1
    where r: "real_step e c npu (ag, g) = Some (ag1, g1)" and sh: "shapes_ok e ag1"
    by blast
  from step [OF Suc.prems r] have "P ag1" .
  from Suc.IH [OF sh this, of g1] r show ?case by simp
qed

lemma simulate_loop_trace:
  assumes "wf_env e" and "shapes_ok e ag"
  shows "\<exists>ag' g' rows. simulate_loop e c npu n (ag, g) = Some (ag', g') \<and>
           history ag' = history ag @ rows \<and> length rows = n \<and>
           trace_from e (self_s ag) rows \<and> self_s ag' = end_state e (self_s ag) rows"
  using assms(2)
proof (induction n arbitrary: ag g)
  case 0
  then show ?case by simp
next
  case (Suc n)
  from real_step_run [OF assms(1) Suc.prems, of c npu g] obtain ag1 g1 a s1
    where r: "real_step e c npu (ag, g) = Some (ag1, g1)" and sh: "shapes_ok e ag1"
      and a: "a < num_actions e" and s1: "s1 < num_states e"
      and h1: "history ag1 = history ag @ [(self_s ag, a, R e (self_s ag) a, s1)]"
      and n1: "self_s ag1 = next_state e s1"
    by blast
  from Suc.IH [OF sh, of g1] obtain ag' g' rows
    where l: "simulate_loop e c npu n (ag1, g1) = Some (ag', g')"
      and h: "history ag' = history ag1 @ rows" and len: "length rows = n"
      and tr: "trace_from e (self_s ag1) rows" and en: "self_s ag' = end_state e (self_s ag1) rows"
    by blast
  let ?rows = "(self_s ag, a, R e (self_s ag) a, s1) # rows"
  from r l have "simulate_loop e c npu (Suc n) (ag, g) = Some (ag', g')" by simp
  moreover from h h1 have "history ag' = history ag @ ?rows" by simp
  moreover from len have "length ?rows = Suc n" by simp
  moreover from tr a s1 n1 have "trace_from e (self_s ag) ?rows" by simp
  moreover from en n1 have "self_s ag' = end_state e (self_s ag) ?rows" by simp
  ultimately show ?case by blast
qed

subsection \<open>Reset\<close>

lemma block_div_mod:
  assumes "n * k \<le> i" and "i < n * k + (k::nat)"
  shows "i div k = n \<and> i mod k = i - n * k"
proof -
  define d where "d = i - n * k"
  with assms have i: "n * k + d = i" and d: "d < k" by simp_all
  from d have "(n * k + d) div k = n" and "(n * k + d) mod k = d" by simp_all
  with i have "i div k = n \<and> i mod k = d" by metis
  then show ?thesis by (simp only: d_def)
qed

lemma length_fill_row:
  "length (fold (\<lambda>a b. b[f a := v a]) xs buf) = length buf"
  by (induction xs arbitrary: buf) simp_all

lemma nth_fill_row:
  "i < length buf \<Longrightarrow>
   fold (\<lambda>a b. b[s * k + a := (s, a, 0::int, s)]) [0..<m] buf ! i =
     (if s * k \<le> i \<and> i < s * k + m then (s, i - s * k, 0, s) else buf ! i)"
proof (induction m)
  case 0
  then show ?case by auto
next
  case (Suc m)
  let ?b = "fold (\<lambda>a b. b[s * k + a := (s, a, 0::int, s)]) [0..<m] buf"
  have len: "length ?b = length buf" by (rule length_fill_row)
  have "fold (\<lambda>a b. b[s * k + a := (s, a, 0::int, s)]) [0..<Suc m] buf ! i
        = ?b[s * k + m := (s, m, 0, s)] ! i"
    by simp
  also have "\<dots> = (if i = s * k + m then (s, m, 0, s) else ?b ! i)"
    using Suc.prems len by (simp add: nth_list_update)
  also have "\<dots> = (if s * k \<le> i \<and> i < s * k + Suc m then (s, i - s * k, 0, s) else buf ! i)"
    using Suc.IH [OF Suc.prems] by auto
  finally show ?case .
qed

lemma length_fill_all:
  "length (fold (\<lambda>s b. fold (\<lambda>a b'. b'[f s a := v s a]) (ys s) b) xs buf) = length buf"
  by (induction xs arbitrary: buf) (simp_all add: length_fill_row)

lemma nth_fill_all:
  "i < length buf \<Longrightarrow>
   fold (\<lambda>s b. fold (\<lambda>a b'. b'[s * k + a := (s, a, 0::int, s)]) [0..<k] b) [0..<n] buf ! i =
     (if i < n * k then (i div k, i mod k, 0, i div k) else buf ! i)"
proof (induction n)
  case 0
  then show ?case by simp
next
  case (Suc n)
  let ?b = "fold (\<lambda>s b. fold (\<lambda>a b'. b'[s * k + a := (s, a, 0::int, s)]) [0..<k] b) [0..<n] buf"
  have len: "i < length ?b" using Suc.prems by (simp add: length_fill_all)
  have "fold (\<lambda>s b. fold (\<lambda>a b'. b'[s * k + a := (s, a, 0::int, s)]) [0..<k] b) [0..<Suc n] buf ! i
        = fold (\<lambda>a b'. b'[n * k + a := (n, a, 0::int, n)]) [0..<k] ?b ! i"
    by simp
  also have "\<dots> = (if n * k \<le> i \<and> i < n * k + k then (n, i - n * k, 0, n) else ?b ! i)"
    using len by (rule nth_fill_row)
  also have "\<dots> = (if i < Suc n * k then (i div k, i mod k, 0, i div k) else buf ! i)"
  proof (cases "n * k \<le> i \<and> i < n * k + k")
    case True
    with block_div_mod [of n k i] show ?thesis by simp
  next
    case False
    with Suc.IH [OF Suc.prems] show ?thesis by auto
  qed
  finally show ?case .
qed

lemma init_experience_buffer_length:
  "length (experience_buffer (init_experience_buffer e ag)) = num_states e * num_actions e"
  by (simp add: init_experience_buffer_def length_fill_all)

lemma init_experience_buffer_nth:
  assumes "s < num_states e" and "a < num_actions e"
  shows "experience_buffer (init_experience_buffer e ag) ! (s * num_actions e + a) = (s, a, 0, s)"
proof -
  let ?i = "s * num_actions e + a"
  from assms have i: "?i < num_states e * num_actions e" by (rule pair_index_less)
  then have "?i < length (replicate (num_states e * num_actions e) (0::nat, 0::nat, 0::int, 0::nat))"
    by simp
  from nth_fill_all [OF this, of "num_actions e" "num_states e"] i assms(2)
  show ?thesis by (simp add: init_experience_buffer_def)
qed

lemma init_experience_buffer_rows:
  assumes "i < num_states e * num_actions e"
  shows "experience_buffer (init_experience_buffer e ag) ! i
           = (i div num_actions e, i mod num_actions e, 0, i div num_actions e)"
proof -
  from assms
  have "i < length (replicate (num_states e * num_actions e) (0::nat, 0::nat, 0::int, 0::nat))"
    by simp
  from nth_fill_all [OF this, of "num_actions e" "num_states e"] assms
  show ?thesis by (simp add: init_experience_buffer_def)
qed

lemma reset_fields:
  "Q (reset e ag) = np_zeros (num_states e) (num_actions e)"
  "action_count (reset e ag) = np_zeros (num_states e) (num_actions e)"
  "history (reset e ag) = []"
  "self_s (reset e ag) = start_state e"
  "experience_buffer (reset e ag) = experience_buffer (init_experience_buffer e ag)"
  by (simp_all add: reset_def init_q_values_def init_experience_buffer_def init_action_count_def
      init_history_def init_action_taken_def)

lemma shapes_ok_reset:
  assumes "wf_env e"
  shows "shapes_ok e (reset e ag)"
proof -
  have "s < num_states e \<and> a < num_actions e \<and> s1 < num_states e"
    if "(s, a, r, s1) \<in> set (experience_buffer (init_experience_buffer e ag))" for s a r s1
  proof -
    from that obtain i where i: "i < num_states e * num_actions e"
      and row: "experience_buffer (init_experience_buffer e ag) ! i = (s, a, r, s1)"
      by (auto simp: in_set_conv_nth init_experience_buffer_length)
    from i have k: "0 < num_actions e" by (cases "num_actions e") simp_all
    from row init_experience_buffer_rows [OF i, of ag]
    have "s = i div num_actions e" and "a = i mod num_actions e" and "s1 = i div num_actions e"
      by simp_all
    moreover from i have "i div num_actions e < num_states e"
      by (simp add: less_mult_imp_div_less)
    ultimately show ?thesis using k by simp
  qed
  with assms show ?thesis
    by (auto simp: shapes_ok_def reset_fields np_zeros_def init_experience_buffer_length
        wf_env_def)
qed

subsection \<open>What a real step does to the tables\<close>

lemma real_step_effect:
  assumes "wf_env e" and "shapes_ok e ag" and "real_step e c npu (ag, g) = Some (ag', g')"
  shows "\<exists>a s1. a < num_actions e \<and> s1 < num_states e \<and>
           experience_buffer ag' = (experience_buffer ag)
             [self_s ag * num_actions e + a := (self_s ag, a, trunc (R e (self_s ag) a), s1)] \<and>
           action_count ag' = (map (map Suc) (action_count ag))
             [self_s ag := (map Suc (action_count ag ! self_s ag))[a := 0]] \<and>
           history ag' = history ag @ [(self_s ag, a, R e (self_s ag) a, s1)] \<and>
           self_s ag' = next_state e s1"
  using real_step_run [OF assms(1,2), of c npu g] assms(3) by auto

lemma steps_since_snoc:
  "steps_since p (ps @ [q]) = (if q = p then 0 else Suc (steps_since p ps))"
  by (simp add: steps_since_def)

lemma steps_since_never: "p \<notin> set ps \<Longrightarrow> steps_since p ps = length ps"
proof -
  assume "p \<notin> set ps"
  then have "takeWhile (\<lambda>q. q \<noteq> p) (rev ps) = rev ps"
    by (auto simp: takeWhile_eq_all_conv)
  then show ?thesis by (simp only: steps_since_def length_rev)
qed

lemma steps_since_last: "p \<notin> set qs \<Longrightarrow> steps_since p (ps @ p # qs) = length qs"
proof -
  assume "p \<notin> set qs"
  then have "takeWhile (\<lambda>q. q \<noteq> p) (rev qs @ p # rev ps) = rev qs"
    by (subst takeWhile_append2) auto
  moreover have "rev (ps @ p # qs) = rev qs @ p # rev ps" by simp
  ultimately show ?thesis by (simp only: steps_since_def length_rev)
qed

lemma touch_nth:
  assumes "s < length C" and "a < length (C ! s)" and "s' < length C" and "a' < length (C ! s')"
  shows "(map (map Suc) C)[s := (map Suc (C ! s))[a := 0]] ! s' ! a' =
           (if s' = s \<and> a' = a then 0 else Suc (C ! s' ! a'))"
  using assms by (auto simp: nth_list_update)

lemma touch_shape:
  assumes "s < length C"
  shows "map length ((map (map Suc) C)[s := (map Suc (C ! s))[a := 0]]) = map length C"
proof -
  from assms have "map (map Suc) C ! s = map Suc (C ! s)" by simp
  with shape_update [of "map (map Suc) C" s a 0] show ?thesis by (simp add: comp_def)
qed

lemma count_inv_step:
  assumes "wf_env e" and "shapes_ok e ag" and "count_inv ag"
    and "real_step e c npu (ag, g) = Some (ag', g')"
  shows "count_inv ag'"
proof -
  let ?s = "self_s ag" and ?C = "action_count ag"
  from real_step_effect [OF assms(1,2,4)] obtain a s1
    where a: "a < num_actions e"
      and C': "action_count ag' = (map (map Suc) ?C)[?s := (map Suc (?C ! ?s))[a := 0]]"
      and h': "history ag' = history ag @ [(?s, a, R e ?s a, s1)]"
    by blast
  from assms(2) have s: "?s < num_states e"
    and shC: "map length ?C = replicate (num_states e) (num_actions e)"
    by (simp_all add: shapes_ok_def)
  from shape_row [OF shC s] a have sC: "?s < length ?C" and aC: "a < length (?C ! ?s)"
    by simp_all
  from touch_shape [OF sC, of a] C' have sh: "map length (action_count ag') = map length ?C"
    by simp
  from h' have ps: "chosen_pairs ag' = chosen_pairs ag @ [(?s, a)]"
    by (simp add: chosen_pairs_def)
  show ?thesis
    unfolding count_inv_def
  proof (intro allI impI)
    fix s' a'
    assume s': "s' < length (action_count ag')" and a': "a' < length (action_count ag' ! s')"
    from sh have "length (map length (action_count ag')) = length (map length ?C)" by simp
    with s' have s'C: "s' < length ?C" by simp
    with sh s' have "length (action_count ag' ! s') = length (?C ! s')"
      by (metis nth_map)
    with a' have a'C: "a' < length (?C ! s')" by simp
    from assms(3) s'C a'C have old: "?C ! s' ! a' = steps_since (s', a') (chosen_pairs ag)"
      by (simp add: count_inv_def)
    from touch_nth [OF sC aC s'C a'C] C' old
    show "action_count ag' ! s' ! a' = steps_since (s', a') (chosen_pairs ag')"
      by (auto simp: ps steps_since_snoc)
  qed
qed

lemma count_inv_reset: "count_inv (reset e ag)"
  by (simp add: count_inv_def reset_fields np_zeros_def chosen_pairs_def steps_since_def)

lemma keys_ok_record:
  assumes "keys_ok e ag" and "a < num_actions e"
    and "experience_buffer ag' =
           (experience_buffer ag)[s * num_actions e + a := (s, a, r, s1)]"
  shows "keys_ok e ag'"
  unfolding keys_ok_def
proof (intro allI impI)
  fix s' a'
  assume s': "s' < num_states e" and a': "a' < num_actions e"
  let ?i = "s * num_actions e + a" and ?j = "s' * num_actions e + a'"
  show "fst (experience_buffer ag' ! ?j) = s' \<and> fst (snd (experience_buffer ag' ! ?j)) = a'"
  proof (cases "?i = ?j")
    case True
    with pair_index_inj [OF assms(2) a' True] assms(1) s' a' show ?thesis
      by (cases "?j < length (experience_buffer ag)")
        (simp_all add: assms(3) list_update_beyond keys_ok_def)
  next
    case False
    with assms(1) s' a' show ?thesis
      by (simp add: assms(3) keys_ok_def)
  qed
qed

lemma keys_ok_reset: "keys_ok e (reset e ag)"
  by (simp add: keys_ok_def reset_fields init_experience_buffer_nth)

lemma keys_ok_step:
  assumes "wf_env e" and "shapes_ok e ag" and "keys_ok e ag"
    and "real_step e c npu (ag, g) = Some (ag', g')"
  shows "keys_ok e ag'"
proof -
  from real_step_effect [OF assms(1,2,4)] obtain a s1
    where "a < num_actions e"
      and "experience_buffer ag' = (experience_buffer ag)
             [self_s ag * num_actions e + a := (self_s ag, a, trunc (R e (self_s ag) a), s1)]"
    by blast
  with assms(3) show ?thesis by (rule keys_ok_record)
qed

lemma simulate_start:
  "simulate e c n reset_agent npu (ag, g) =
     simulate_loop e c npu n (if reset_agent then reset e ag else ag, g)"
  by (simp add: simulate_def)

lemma shapes_ok_start:
  "wf_env e \<Longrightarrow> reset_agent \<or> shapes_ok e ag \<Longrightarrow>
   shapes_ok e (if reset_agent then reset e ag else ag)"
  by (auto simp: shapes_ok_reset)

subsection \<open>A run of three steps\<close>

text \<open>
  Two states and one action; the action leads from every state to state 1, the goal, with
  reward 1, so every step starts in state 0.
\<close>

lemma wf_env_example:
  "wf_env \<lparr>num_states = 2, num_actions = 1, start_state = 0, goal_state = 1,
           T = (\<lambda>s a. [0, 1]), R = (\<lambda>s a. 1)\<rparr>"
  by (simp add: wf_env_def valid_dist_def trunc_def)

lemma simulate_example:
  "simulate \<lparr>num_states = 2, num_actions = 1, start_state = 0, goal_state = 1,
             T = (\<lambda>s a. [0, 1]), R = (\<lambda>s a. 1)\<rparr>
     \<lparr>alpha = 1/2, gamma = 1/2, epsilon = 1\<rparr> 3 True None
     (\<lparr>Q = [], experience_buffer = [], action_count = [], history = [(5, 5, 5, 5)],
       action_taken = [], self_s = 7\<rparr>, sconst 0)
   = Some (\<lparr>Q = [[7/8], [0]], experience_buffer = [(0, 0, 1, 1), (1, 0, 0, 1)],
            action_count = [[0], [3]],
            history = [(0, 0, 1, 1), (0, 0, 1, 1), (0, 0, 1, 1)],
            action_taken = [[0], [0]], self_s = 0\<rparr>, sconst 0)"
  by (simp add: simulate_def reset_def init_q_values_def init_experience_buffer_def
      init_action_count_def init_history_def init_action_taken_def np_zeros_def
      numeral_3_eq_3 numeral_2_eq_2 real_step_def policy_def np_unique_def random_below_def
      random_choice_p_def np_cumsum_def uniform01_def update_qvals_def np_max_def
      update_experience_buffer_def to_int_def trunc_def update_action_count_def
      update_history_def)

lemma simulate_plan_example:
  "simulate \<lparr>num_states = 2, num_actions = 1, start_state = 0, goal_state = 1,
             T = (\<lambda>s a. [0, 1]), R = (\<lambda>s a. 1)\<rparr>
     \<lparr>alpha = 1/2, gamma = 1/2, epsilon = 1\<rparr> 2 True (Some 1)
     (\<lparr>Q = [], experience_buffer = [], action_count = [], history = [(5, 5, 5, 5)],
       action_taken = [], self_s = 7\<rparr>, sconst 0)
   = Some (\<lparr>Q = [[63/64], [0]], experience_buffer = [(0, 0, 1, 1), (1, 0, 0, 1)],
            action_count = [[0], [2]],
            history = [(0, 0, 1, 1), (0, 0, 1, 1)],
            action_taken = [[0], [0]], self_s = 0\<rparr>, sconst 0)"
  by (simp add: simulate_def reset_def init_q_values_def init_experience_buffer_def
      init_action_count_def init_history_def init_action_taken_def np_zeros_def
      numeral_2_eq_2 real_step_def policy_def np_unique_def random_below_def
      random_choice_p_def np_cumsum_def uniform01_def update_qvals_def np_max_def
      update_experience_buffer_def to_int_def trunc_def update_action_count_def
      update_history_def)

subsection \<open>The run of the source is the reference run\<close>

lemma policy_ref:
  assumes "s < length (Q ag)" and "Q ag ! s \<noteq> []"
  shows "policy ag s g = Some (ref_select (Q ag ! s) g)"
proof -
  define row where "row = Q ag ! s"
  from assms have ne: "row \<noteq> []" and pos: "0 < length row"
    by (simp_all add: row_def)
  have un: "list_all (\<lambda>x. x = row ! 0) (np_unique row) \<longleftrightarrow> (\<forall>x \<in> set row. x = hd row)"
    using ne by (simp add: np_unique_def list_all_iff hd_conv_nth)
  from np_argmax_first_max [OF ne] obtain a where a: "np_argmax row = Some a"
    and lt: "a < length row" and mx: "row ! a = Max (set row)"
    and before: "\<forall>j < a. row ! j < row ! a"
    by blast
  have "takeWhile (\<lambda>x. x < Max (set row)) row = take a row"
  proof (rule takeWhile_eq_take_P_nth)
    fix i assume "i < a" and "i < length row"
    with before mx show "row ! i < Max (set row)" by simp
  next
    assume "a < length row"
    from mx show "\<not> row ! a < Max (set row)" by simp
  qed
  with lt have "length (takeWhile (\<lambda>x. x < Max (set row)) row) = a" by simp
  with a assms pos un show ?thesis
    by (simp add: policy_def ref_select_def random_below_def flip: row_def)
qed

lemma np_cumsum_prefix_sums:
  "np_cumsum p = map (\<lambda>i. sum_list (take (Suc i) p)) [0..<length p]"
  by (rule nth_equalityI) (simp_all add: np_cumsum_def length_cumsum_from nth_cumsum_from)

lemma random_choice_p_ref:
  assumes "valid_dist n p" and "0 < n"
  shows "random_choice_p n p g = Some (ref_sample p g)"
proof -
  have "length (takeWhile (\<lambda>c. c \<le> uniform01 (shd g)) (np_cumsum p)) =
        length (takeWhile (\<lambda>i. sum_list (take (Suc i) p) \<le> uniform01 (shd g)) [0..<length p])"
    unfolding np_cumsum_prefix_sums takeWhile_map by (simp add: comp_def)
  with assms show ?thesis
    by (auto simp: random_choice_p_def ref_sample_def valid_dist_def not_less)
qed

lemma update_qvals_ref:
  assumes "s < length (Q ag)" and "a < length (Q ag ! s)"
    and "s1 < length (Q ag)" and "Q ag ! s1 \<noteq> []"
    and "b \<longrightarrow> s < length (action_count ag) \<and> a < length (action_count ag ! s)"
  shows "update_qvals c ag s a r s1 b =
           Some (ag\<lparr>Q := ref_update c (Q ag) (action_count ag) s a r s1 b\<rparr>)"
proof -
  have ne: "(Q ag)[s := (Q ag ! s)[a := v]] ! s1 \<noteq> []" for v
    using assms by (cases "s1 = s") auto
  show ?thesis
  proof (cases b)
    case True
    with assms ne show ?thesis
      by (simp add: update_qvals_def np_max_Max ref_update_def Let_def)
  next
    case False
    with assms show ?thesis
      by (simp add: update_qvals_def np_max_Max ref_update_def Let_def)
  qed
qed

lemma ref_update_shape: "map length (ref_update c tab cnt s a r s1 b) = map length tab"
  by (simp add: ref_update_def Let_def shape_update)

lemma touch_ref:
  assumes "s < length C" and "a < length (C ! s)"
  shows "(map (map Suc) C)[s := (map Suc (C ! s))[a := 0]] = ref_touch C s a"
proof (rule nth_equalityI)
  show "length ((map (map Suc) C)[s := (map Suc (C ! s))[a := 0]]) = length (ref_touch C s a)"
    by (simp add: ref_touch_def)
next
  fix i assume "i < length ((map (map Suc) C)[s := (map Suc (C ! s))[a := 0]])"
  then have i: "i < length C" by simp
  show "(map (map Suc) C)[s := (map Suc (C ! s))[a := 0]] ! i = ref_touch C s a ! i"
  proof (rule nth_equalityI)
    from i show "length ((map (map Suc) C)[s := (map Suc (C ! s))[a := 0]] ! i)
        = length (ref_touch C s a ! i)"
      by (cases "i = s") (simp_all add: ref_touch_def)
  next
    fix j assume "j < length ((map (map Suc) C)[s := (map Suc (C ! s))[a := 0]] ! i)"
    with i have j: "j < length (C ! i)" by (cases "i = s") simp_all
    from touch_nth [OF assms i j] i j
    show "(map (map Suc) C)[s := (map Suc (C ! s))[a := 0]] ! i ! j = ref_touch C s a ! i ! j"
      by (simp add: ref_touch_def)
  qed
qed

lemma plan_ref:
  assumes "shapes_ok e ag" and "0 < num_states e * num_actions e"
  shows "plan c k (ag, g) =
           Some (case ref_plan c k (action_count ag) (experience_buffer ag) (Q ag, g) of
                   (tab, g') \<Rightarrow> (ag\<lparr>Q := tab\<rparr>, g'))"
  using assms(1)
proof (induction k arbitrary: ag g)
  case 0
  then show ?case by simp
next
  case (Suc k)
  let ?n = "length (experience_buffer ag)"
  from Suc.prems assms(2) have pos: "0 < ?n"
    by (simp add: shapes_ok_def)
  define i where "i = shd g mod ?n"
  from pos have i: "i < ?n" by (simp add: i_def)
  obtain s a r s1 where row: "experience_buffer ag ! i = (s, a, r, s1)"
    by (cases "experience_buffer ag ! i") auto
  from shapes_ok_buffer_row [OF Suc.prems i row]
  have s: "s < num_states e" and a: "a < num_actions e" and s1: "s1 < num_states e"
    by simp_all
  from Suc.prems have shQ: "map length (Q ag) = replicate (num_states e) (num_actions e)"
    and shC: "map length (action_count ag) = replicate (num_states e) (num_actions e)"
    by (simp_all add: shapes_ok_def)
  from shape_row [OF shQ s] shape_row [OF shQ s1] shape_row [OF shC s] a
  have "s < length (Q ag)" and "a < length (Q ag ! s)" and "s1 < length (Q ag)"
    and "Q ag ! s1 \<noteq> []"
    and "True \<longrightarrow> s < length (action_count ag) \<and> a < length (action_count ag ! s)"
    by auto
  from update_qvals_ref [OF this, of c "of_int r"]
  have u: "update_qvals c ag s a (of_int r) s1 True =
        Some (ag\<lparr>Q := ref_update c (Q ag) (action_count ag) s a (of_int r) s1 True\<rparr>)" .
  let ?tab1 = "ref_update c (Q ag) (action_count ag) s a (of_int r) s1 True"
  from Suc.prems ref_update_shape have "shapes_ok e (ag\<lparr>Q := ?tab1\<rparr>)"
    by (rule shapes_ok_Q)
  from Suc.IH [OF this, of "stl g"]
  have p: "plan c k (ag\<lparr>Q := ?tab1\<rparr>, stl g) =
      Some (case ref_plan c k (action_count ag) (experience_buffer ag) (?tab1, stl g) of
              (tab, g') \<Rightarrow> (ag\<lparr>Q := tab\<rparr>, g'))"
    by (simp add: case_prod_beta)
  show ?case
    using pos i row u p by (simp add: random_below_def i_def)
qed

lemma real_step_ref:
  assumes "wf_env e" and "shapes_ok e ag"
  shows "real_step e c npu (ag, g) = Some (ref_step e c npu (ag, g))"
proof -
  let ?s = "self_s ag"
  from assms have na: "0 < num_actions e" and ns: "0 < num_states e"
    and s: "?s < num_states e"
    and shQ: "map length (Q ag) = replicate (num_states e) (num_actions e)"
    and shC: "map length (action_count ag) = replicate (num_states e) (num_actions e)"
    and lenB: "length (experience_buffer ag) = num_states e * num_actions e"
    by (auto simp: wf_env_def shapes_ok_def)
  from shape_row [OF shQ s] na have sQ: "?s < length (Q ag)"
    and rowQ: "length (Q ag ! ?s) = num_actions e" and neQ: "Q ag ! ?s \<noteq> []"
    by auto
  obtain a g1 where sel: "ref_select (Q ag ! ?s) g = (a, g1)"
    by (cases "ref_select (Q ag ! ?s) g") auto
  from policy_ref [OF sQ neQ, of g] sel have pol: "policy ag ?s g = Some (a, g1)"
    by simp
  with policy_total [OF sQ neQ, of g] rowQ have a: "a < num_actions e"
    by auto
  from assms(1) s a have vd: "valid_dist (num_states e) (T e ?s a)"
    by (simp add: wf_env_def)
  obtain s1 g2 where sam: "ref_sample (T e ?s a) g1 = (s1, g2)"
    by (cases "ref_sample (T e ?s a) g1") auto
  from random_choice_p_ref [OF vd ns, of g1] sam
  have smp: "random_choice_p (num_states e) (T e ?s a) g1 = Some (s1, g2)"
    by simp
  with random_choice_p_total [OF vd ns, of g1] have s1: "s1 < num_states e"
    by auto
  let ?r = "R e ?s a"
  let ?tab1 = "ref_update c (Q ag) (action_count ag) ?s a ?r s1 False"
  from shape_row [OF shQ s1] na rowQ a sQ
  have "?s < length (Q ag)" and "a < length (Q ag ! ?s)" and "s1 < length (Q ag)"
    and "Q ag ! s1 \<noteq> []"
    and "False \<longrightarrow> ?s < length (action_count ag) \<and> a < length (action_count ag ! ?s)"
    by auto
  from update_qvals_ref [OF this, of c ?r]
  have upd: "update_qvals c ag ?s a ?r s1 False = Some (ag\<lparr>Q := ?tab1\<rparr>)" .
  let ?buf = "(experience_buffer ag)[?s * num_actions e + a := (?s, a, trunc ?r, s1)]"
  let ?cnt = "ref_touch (action_count ag) ?s a"
  define ag2 where "ag2 = ag\<lparr>Q := ?tab1, experience_buffer := ?buf\<rparr>"
  from assms(1) s a have "to_int ?r = Some (trunc ?r)"
    by (simp add: wf_env_def to_int_def)
  with pair_index_less [OF s a] lenB
  have rec: "update_experience_buffer e (ag\<lparr>Q := ?tab1\<rparr>) ?s a ?r s1 = Some ag2"
    by (simp add: update_experience_buffer_def ag2_def)
  define ag3 where "ag3 = ag2\<lparr>action_count := ?cnt\<rparr>"
  from shape_row [OF shC s] a
  have sC: "?s < length (action_count ag)" and aC: "a < length (action_count ag ! ?s)"
    by simp_all
  from sC aC touch_ref [OF sC aC]
  have touch: "update_action_count ag2 ?s a = Some ag3"
    by (simp add: update_action_count_def ag2_def ag3_def)
  define ag4 where "ag4 = update_history ag3 ?s a ?r s1"
  have f4: "Q ag4 = ?tab1" "experience_buffer ag4 = ?buf" "action_count ag4 = ?cnt"
    by (simp_all add: ag4_def ag3_def ag2_def update_history_def)
  have "set ?buf \<subseteq> insert (?s, a, trunc ?r, s1) (set (experience_buffer ag))"
    by (rule set_update_subset_insert)
  with assms(2) s a s1 have rows: "\<forall>(s, a, r, s1) \<in> set ?buf.
      s < num_states e \<and> a < num_actions e \<and> s1 < num_states e"
    by (auto simp: shapes_ok_def)
  from touch_ref [OF sC aC] touch_shape [OF sC, of a] shC
  have shC4: "map length ?cnt = replicate (num_states e) (num_actions e)"
    by simp
  from rows shC4 shQ lenB s have sh4: "shapes_ok e ag4"
    by (simp add: shapes_ok_def f4 ref_update_shape ag4_def ag3_def ag2_def update_history_def)
  obtain tab2 g3 where pl2: "(case npu of None \<Rightarrow> (?tab1, g2)
      | Some k \<Rightarrow> ref_plan c k ?cnt ?buf (?tab1, g2)) = (tab2, g3)"
    by (cases "case npu of None \<Rightarrow> (?tab1, g2) | Some k \<Rightarrow> ref_plan c k ?cnt ?buf (?tab1, g2)")
      auto
  have pl: "(case npu of None \<Rightarrow> Some (ag4, g2) | Some k \<Rightarrow> plan c k (ag4, g2))
           = Some (ag4\<lparr>Q := tab2\<rparr>, g3)"
  proof (cases npu)
    case None
    with pl2 f4 show ?thesis by auto
  next
    case (Some k)
    from ns na have "0 < num_states e * num_actions e" by simp
    from plan_ref [OF sh4 this, of c k g2] Some pl2 show ?thesis
      by (simp add: f4)
  qed
  have "real_step e c npu (ag, g) = Some (ag4\<lparr>Q := tab2\<rparr>\<lparr>self_s := next_state e s1\<rparr>, g3)"
    using pol smp upd rec touch pl
    by (simp add: real_step_def next_state_def flip: ag4_def)
  moreover have "ref_step e c npu (ag, g) = (ag4\<lparr>Q := tab2\<rparr>\<lparr>self_s := next_state e s1\<rparr>, g3)"
    using sel sam pl2
    by (simp add: ref_step_def Let_def next_state_def ag4_def ag3_def ag2_def
        update_history_def)
  ultimately show ?thesis by simp
qed

lemma simulate_loop_ref:
  assumes "wf_env e" and "shapes_ok e ag"
  shows "simulate_loop e c npu n (ag, g) = Some (ref_run e c npu n (ag, g))"
  using assms(2)
proof (induction n arbitrary: ag g)
  case 0
  then show ?case by simp
next
  case (Suc n)
  obtain ag1 g1 where st: "ref_step e c npu (ag, g) = (ag1, g1)"
    by (cases "ref_step e c npu (ag, g)") auto
  with real_step_ref [OF assms(1) Suc.prems, of c npu g]
  have r: "real_step e c npu (ag, g) = Some (ag1, g1)" by simp
  with real_step_run [OF assms(1) Suc.prems, of c npu g] have "shapes_ok e ag1" by auto
  from Suc.IH [OF this, of g1] r st show ?case by simp
qed

lemma reset_ref: "reset e ag = ref_reset e"
proof -
  have "experience_buffer (init_experience_buffer e ag) =
        map (\<lambda>i. (i div num_actions e, i mod num_actions e, 0, i div num_actions e))
            [0..<num_states e * num_actions e]"
    by (rule nth_equalityI)
      (simp_all add: init_experience_buffer_length init_experience_buffer_rows)
  moreover have "np_zeros (length (np_zeros (num_states e) (num_actions e) :: nat list list))
     (case (np_zeros (num_states e) (num_actions e) :: nat list list) of [] \<Rightarrow> 0
      | row # _ \<Rightarrow> length row)
     = (replicate (num_states e) (replicate (num_actions e) 0) :: real list list)"
    by (cases "num_states e") (simp_all add: np_zeros_def)
  ultimately show ?thesis
    by (simp add: reset_def ref_reset_def init_q_values_def init_action_count_def
        init_history_def init_action_taken_def np_zeros_def init_experience_buffer_def)
qed

subsection \<open>The simulation loop\<close>

text \<open>
  C2. In a well-formed environment, from an agent that is reset by the call or has tables
  of the right shapes, \<open>simulate\<close> returns for every step count \<open>n\<close>, and what it returns
  is the reference run of \<open>n\<close> real steps: each step selects an action in the current
  state, draws the next state from the row of the transition tensor, reads the reward,
  applies the update without bonus, records the transition, touches the recency counter,
  appends to the history, performs the planning updates of the budget (if there is one)
  on the recorded buffer and the touched counter, and moves to the start state if the next
  state is the goal state and to the next state otherwise. The history has grown by
  exactly \<open>n\<close> rows, each starting where the previous one moved to: reaching the goal
  state never ends the run early.
\<close>

theorem simulate_runs_all_steps:
  assumes "wf_env e" and "reset_agent \<or> shapes_ok e ag"
  shows "simulate e c n reset_agent npu (ag, g) =
           Some (ref_run e c npu n (if reset_agent then ref_reset e else ag, g)) \<and>
         (\<exists>ag' g' rows.
           simulate e c n reset_agent npu (ag, g) = Some (ag', g') \<and>
           history ag' = (if reset_agent then [] else history ag) @ rows \<and>
           length rows = n \<and>
           trace_from e (if reset_agent then start_state e else self_s ag) rows \<and>
           self_s ag' = end_state e (if reset_agent then start_state e else self_s ag) rows)"
proof -
  let ?ag0 = "if reset_agent then reset e ag else ag"
  from assms have sh: "shapes_ok e ?ag0" by (rule shapes_ok_start)
  have "?ag0 = (if reset_agent then ref_reset e else ag)"
    by (simp add: reset_ref)
  with simulate_loop_ref [OF assms(1) sh, of c npu n g]
  have "simulate e c n reset_agent npu (ag, g) =
           Some (ref_run e c npu n (if reset_agent then ref_reset e else ag, g))"
    unfolding simulate_start by simp
  moreover from simulate_loop_trace [OF assms(1) sh, of c npu n g]
  have "\<exists>ag' g' rows.
           simulate e c n reset_agent npu (ag, g) = Some (ag', g') \<and>
           history ag' = (if reset_agent then [] else history ag) @ rows \<and>
           length rows = n \<and>
           trace_from e (if reset_agent then start_state e else self_s ag) rows \<and>
           self_s ag' = end_state e (if reset_agent then start_state e else self_s ag) rows"
    unfolding simulate_start by (cases reset_agent) (simp_all add: reset_fields)
  ultimately show ?thesis ..
qed

theorem simulate_runs_all_steps_witness:
  "wf_env \<lparr>num_states = 2, num_actions = 1, start_state = 0, goal_state = 1,
           T = (\<lambda>s a. [0, 1]), R = (\<lambda>s a. 1)\<rparr> \<and>
   ref_run \<lparr>num_states = 2, num_actions = 1, start_state = 0, goal_state = 1,
            T = (\<lambda>s a. [0, 1]), R = (\<lambda>s a. 1)\<rparr>
     \<lparr>alpha = 1/2, gamma = 1/2, epsilon = 1\<rparr> (Some 1) 2
     (ref_reset \<lparr>num_states = 2, num_actions = 1, start_state = 0, goal_state = 1,
            T = (\<lambda>s a. [0, 1]), R = (\<lambda>s a. 1)\<rparr>, sconst 0)
   = (\<lparr>Q = [[63/64], [0]], experience_buffer = [(0, 0, 1, 1), (1, 0, 0, 1)],
       action_count = [[0], [2]], history = [(0, 0, 1, 1), (0, 0, 1, 1)],
       action_taken = [[0], [0]], self_s = 0\<rparr>, sconst 0) \<and>
   (\<exists>ag' g' rows.
      simulate \<lparr>num_states = 2, num_actions = 1, start_state = 0, goal_state = 1,
                T = (\<lambda>s a. [0, 1]), R = (\<lambda>s a. 1)\<rparr>
        \<lparr>alpha = 1/2, gamma = 1/2, epsilon = 1\<rparr> 2 True (Some 1)
        (\<lparr>Q = [], experience_buffer = [], action_count = [], history = [(5, 5, 5, 5)],
          action_taken = [], self_s = 7\<rparr>, sconst 0) = Some (ag', g') \<and>
      history ag' = rows \<and> rows = [(0, 0, 1, 1), (0, 0, 1, 1)] \<and>
      length rows = 2 \<and>
      trace_from \<lparr>num_states = 2, num_actions = 1, start_state = 0, goal_state = 1,
                  T = (\<lambda>s a. [0, 1]), R = (\<lambda>s a. 1)\<rparr> 0 rows \<and>
      self_s ag' = end_state \<lparr>num_states = 2, num_actions = 1, start_state = 0,
                  goal_state = 1, T = (\<lambda>s a. [0, 1]), R = (\<lambda>s a. 1)\<rparr> 0 rows)"
proof -
  let ?E = "\<lparr>num_states = 2, num_actions = 1, start_state = 0, goal_state = 1,
           T = (\<lambda>s a. [0, 1]), R = (\<lambda>s a. 1)\<rparr>"
  let ?C = "\<lparr>alpha = 1/2, gamma = 1/2, epsilon = 1\<rparr>"
  let ?A = "\<lparr>Q = [], experience_buffer = [], action_count = [], history = [(5, 5, 5, 5)],
          action_taken = [], self_s = 7\<rparr>"
  have wf: "wf_env ?E" by (rule wf_env_example)
  note run = simulate_runs_all_steps [OF wf, of True ?A ?C 2 "Some 1" "sconst 0"]
  from run have eq: "simulate ?E ?C 2 True (Some 1) (?A, sconst 0) =
      Some (ref_run ?E ?C (Some 1) 2 (if True then ref_reset ?E else ?A, sconst 0))"
    by blast
  from run obtain ag' g' rows
    where sim: "simulate ?E ?C 2 True (Some 1) (?A, sconst 0) = Some (ag', g')"
      and h: "history ag' = (if True then [] else history ?A) @ rows"
      and len: "length rows = 2"
      and tr: "trace_from ?E (if True then start_state ?E else self_s ?A) rows"
      and en: "self_s ag' = end_state ?E (if True then start_state ?E else self_s ?A) rows"
    by blast
  from eq simulate_plan_example
  have "ref_run ?E ?C (Some 1) 2 (ref_reset ?E, sconst 0)
        = (\<lparr>Q = [[63/64], [0]], experience_buffer = [(0, 0, 1, 1), (1, 0, 0, 1)],
            action_count = [[0], [2]], history = [(0, 0, 1, 1), (0, 0, 1, 1)],
            action_taken = [[0], [0]], self_s = 0\<rparr>, sconst 0)"
    by simp
  moreover from sim simulate_plan_example
  have "history ag' = [(0, 0, 1, 1), (0, 0, 1, 1)]" by auto
  with h have "rows = [(0, 0, 1, 1), (0, 0, 1, 1)]" by simp
  moreover from h have "history ag' = rows" by simp
  moreover from tr have "trace_from ?E 0 rows" by simp
  moreover from en have "self_s ag' = end_state ?E 0 rows" by simp
  ultimately show ?thesis using wf sim len by blast
qed

subsection \<open>The recency counter\<close>

text \<open>
  C3. After a run that starts with a reset (or continues from an agent on which the
  invariant holds), for every pair \<open>(s, a)\<close> the counter \<open>C[s,a]\<close> is the number of real
  steps since the pair was last chosen: the length of the history if the pair was never
  chosen, and the number of rows logged after its last occurrence otherwise. Each real
  step maintains this by \<open>touch_nth\<close>: every entry is incremented and the entry of the
  chosen pair is set to 0.
\<close>

theorem recency_counter_invariant:
  assumes "wf_env e" and "reset_agent \<or> shapes_ok e ag \<and> count_inv ag"
  shows "\<exists>ag' g'.
           simulate e c n reset_agent npu (ag, g) = Some (ag', g') \<and>
           (\<forall>s < num_states e. \<forall>a < num_actions e.
              action_count ag' ! s ! a = steps_since (s, a) (chosen_pairs ag') \<and>
              ((s, a) \<notin> set (chosen_pairs ag') \<longrightarrow>
                 action_count ag' ! s ! a = length (history ag')) \<and>
              (\<forall>ps qs. chosen_pairs ag' = ps @ (s, a) # qs \<and> (s, a) \<notin> set qs \<longrightarrow>
                 action_count ag' ! s ! a = length qs))"
proof -
  let ?ag0 = "if reset_agent then reset e ag else ag"
  from assms have sh0: "shapes_ok e ?ag0" by (intro shapes_ok_start) auto
  from assms(2) have inv0: "count_inv ?ag0" by (auto simp: count_inv_reset)
  from simulate_loop_invariant [of e ?ag0 count_inv c npu n g, OF assms(1) sh0 inv0]
    count_inv_step [OF assms(1)]
  obtain ag' g' where run: "simulate_loop e c npu n (?ag0, g) = Some (ag', g')"
    and sh: "shapes_ok e ag'" and inv: "count_inv ag'"
    by blast
  from sh have shC: "map length (action_count ag') = replicate (num_states e) (num_actions e)"
    by (simp add: shapes_ok_def)
  have "action_count ag' ! s ! a = steps_since (s, a) (chosen_pairs ag') \<and>
        ((s, a) \<notin> set (chosen_pairs ag') \<longrightarrow>
           action_count ag' ! s ! a = length (history ag')) \<and>
        (\<forall>ps qs. chosen_pairs ag' = ps @ (s, a) # qs \<and> (s, a) \<notin> set qs \<longrightarrow>
           action_count ag' ! s ! a = length qs)"
    if "s < num_states e" and "a < num_actions e" for s a
  proof -
    from shape_row [OF shC that(1)] that(2) inv
    have eq: "action_count ag' ! s ! a = steps_since (s, a) (chosen_pairs ag')"
      by (simp add: count_inv_def)
    have "length (chosen_pairs ag') = length (history ag')"
      by (simp add: chosen_pairs_def)
    with eq show ?thesis
      by (auto simp: steps_since_never steps_since_last)
  qed
  with run show ?thesis
    unfolding simulate_start by blast
qed

theorem recency_counter_invariant_witness:
  "wf_env \<lparr>num_states = 2, num_actions = 1, start_state = 0, goal_state = 1,
           T = (\<lambda>s a. [0, 1]), R = (\<lambda>s a. 1)\<rparr> \<and>
   (\<exists>ag' g'.
      simulate \<lparr>num_states = 2, num_actions = 1, start_state = 0, goal_state = 1,
           T = (\<lambda>s a. [0, 1]), R = (\<lambda>s a. 1)\<rparr>
        \<lparr>alpha = 1/2, gamma = 1/2, epsilon = 1\<rparr> 3 True None
        (\<lparr>Q = [], experience_buffer = [], action_count = [], history = [(5, 5, 5, 5)],
          action_taken = [], self_s = 7\<rparr>, sconst 0) = Some (ag', g') \<and>
      action_count ag' = [[0], [3]] \<and>
      action_count ag' ! 0 ! 0 = steps_since (0, 0) (chosen_pairs ag') \<and>
      action_count ag' ! 1 ! 0 = length (history ag'))"
proof -
  let ?E = "\<lparr>num_states = 2, num_actions = 1, start_state = 0, goal_state = 1,
           T = (\<lambda>s a. [0, 1]), R = (\<lambda>s a. 1)\<rparr>"
  let ?C = "\<lparr>alpha = 1/2, gamma = 1/2, epsilon = 1\<rparr>"
  let ?A = "\<lparr>Q = [], experience_buffer = [], action_count = [], history = [(5, 5, 5, 5)],
          action_taken = [], self_s = 7\<rparr>"
  have wf: "wf_env ?E" by (rule wf_env_example)
  from recency_counter_invariant [OF wf, of True ?A ?C 3 None "sconst 0"]
  obtain ag' g'
    where run: "simulate ?E ?C 3 True None (?A, sconst 0) = Some (ag', g')"
      and inv: "\<forall>s < num_states ?E. \<forall>a < num_actions ?E.
              action_count ag' ! s ! a = steps_since (s, a) (chosen_pairs ag') \<and>
              ((s, a) \<notin> set (chosen_pairs ag') \<longrightarrow>
                 action_count ag' ! s ! a = length (history ag')) \<and>
              (\<forall>ps qs. chosen_pairs ag' = ps @ (s, a) # qs \<and> (s, a) \<notin> set qs \<longrightarrow>
                 action_count ag' ! s ! a = length qs)"
    by blast
  from run simulate_example
  have C: "action_count ag' = [[0], [3]]"
    and h: "history ag' = [(0, 0, 1, 1), (0, 0, 1, 1), (0, 0, 1, 1)]"
    by auto
  have "(0::nat) < num_states ?E" and "(1::nat) < num_states ?E" and "(0::nat) < num_actions ?E"
    by simp_all
  with inv have "action_count ag' ! 0 ! 0 = steps_since (0, 0) (chosen_pairs ag')"
    and "(1, 0) \<notin> set (chosen_pairs ag') \<longrightarrow> action_count ag' ! 1 ! 0 = length (history ag')"
    by blast+
  moreover from h have "(1, 0) \<notin> set (chosen_pairs ag')"
    by (simp add: chosen_pairs_def)
  ultimately show ?thesis using wf run C by blast
qed

subsection \<open>The experience model\<close>

text \<open>
  C6. After a reset the row of every pair \<open>(s, a)\<close> of the experience buffer is the
  self-loop \<open>(s, a, 0, s)\<close>. After any number of real steps of a run that started with a
  reset, the buffer still has one row per pair, the row of every pair can be read and can
  be drawn by the planning sample, and it is still the self-loop when the pair has not
  been chosen by a real step.
\<close>

theorem experience_model_total:
  assumes "wf_env e" and "s < num_states e" and "a < num_actions e"
  shows "experience_buffer (reset e ag) ! (s * num_actions e + a) = (s, a, 0, s) \<and>
         (\<exists>ag' g'.
            simulate e c n True npu (ag, g) = Some (ag', g') \<and>
            length (experience_buffer ag') = num_states e * num_actions e \<and>
            (\<exists>row. get1 (experience_buffer ag') (s * num_actions e + a) = Some row) \<and>
            random_below (length (experience_buffer ag')) ((s * num_actions e + a) ## g')
              = Some (s * num_actions e + a, g') \<and>
            ((s, a) \<notin> set (chosen_pairs ag') \<longrightarrow>
               experience_buffer ag' ! (s * num_actions e + a) = (s, a, 0, s)))"
proof -
  let ?i = "s * num_actions e + a"
  let ?P = "\<lambda>ag. (s, a) \<notin> set (chosen_pairs ag) \<longrightarrow> experience_buffer ag ! ?i = (s, a, 0, s)"
  from assms(2,3) have first: "experience_buffer (reset e ag) ! ?i = (s, a, 0, s)"
    by (simp add: reset_fields init_experience_buffer_nth)
  have step: "?P ag2" if "shapes_ok e ag1" and "?P ag1"
    and "real_step e c npu (ag1, g1) = Some (ag2, g2)" for ag1 g1 ag2 g2
  proof
    assume new: "(s, a) \<notin> set (chosen_pairs ag2)"
    from real_step_effect [OF assms(1) that(1,3)] obtain a0 s1
      where a0: "a0 < num_actions e"
        and b: "experience_buffer ag2 = (experience_buffer ag1)
               [self_s ag1 * num_actions e + a0 :=
                  (self_s ag1, a0, trunc (R e (self_s ag1) a0), s1)]"
        and h: "history ag2 = history ag1 @ [(self_s ag1, a0, R e (self_s ag1) a0, s1)]"
      by blast
    from h have "chosen_pairs ag2 = chosen_pairs ag1 @ [(self_s ag1, a0)]"
      by (simp add: chosen_pairs_def)
    with new have old: "(s, a) \<notin> set (chosen_pairs ag1)" and ne: "(self_s ag1, a0) \<noteq> (s, a)"
      by auto
    from ne pair_index_inj [OF a0 assms(3), of "self_s ag1" s]
    have "self_s ag1 * num_actions e + a0 \<noteq> ?i" by auto
    with b have "experience_buffer ag2 ! ?i = experience_buffer ag1 ! ?i" by simp
    with that(2) old show "experience_buffer ag2 ! ?i = (s, a, 0, s)" by simp
  qed
  from first have "?P (reset e ag)" by simp
  from simulate_loop_invariant [of e "reset e ag" ?P c npu n g,
      OF assms(1) shapes_ok_reset [OF assms(1)] this] step
  obtain ag' g' where run: "simulate_loop e c npu n (reset e ag, g) = Some (ag', g')"
    and sh: "shapes_ok e ag'" and P: "?P ag'"
    by blast
  from sh have len: "length (experience_buffer ag') = num_states e * num_actions e"
    by (simp add: shapes_ok_def)
  from pair_index_less [OF assms(2,3)] len have i: "?i < length (experience_buffer ag')"
    by simp
  then have rb: "random_below (length (experience_buffer ag')) (?i ## g') = Some (?i, g')"
    by (auto simp: random_below_def)
  from i have "get1 (experience_buffer ag') ?i = Some (experience_buffer ag' ! ?i)"
    by (rule get1_Some)
  then have ex: "\<exists>row. get1 (experience_buffer ag') ?i = Some row" ..
  from run len ex rb P first show ?thesis
    unfolding simulate_start if_True by blast
qed

theorem experience_model_total_witness:
  "wf_env \<lparr>num_states = 2, num_actions = 1, start_state = 0, goal_state = 1,
           T = (\<lambda>s a. [0, 1]), R = (\<lambda>s a. 1)\<rparr> \<and>
   experience_buffer (reset \<lparr>num_states = 2, num_actions = 1, start_state = 0, goal_state = 1,
           T = (\<lambda>s a. [0, 1]), R = (\<lambda>s a. 1)\<rparr>
      \<lparr>Q = [], experience_buffer = [], action_count = [], history = [(5, 5, 5, 5)],
          action_taken = [], self_s = 7\<rparr>) ! (1 * 1 + 0) = (1, 0, 0, 1) \<and>
   (\<exists>ag' g'.
      simulate \<lparr>num_states = 2, num_actions = 1, start_state = 0, goal_state = 1,
           T = (\<lambda>s a. [0, 1]), R = (\<lambda>s a. 1)\<rparr>
        \<lparr>alpha = 1/2, gamma = 1/2, epsilon = 1\<rparr> 3 True None
        (\<lparr>Q = [], experience_buffer = [], action_count = [], history = [(5, 5, 5, 5)],
          action_taken = [], self_s = 7\<rparr>, sconst 0) = Some (ag', g') \<and>
      length (experience_buffer ag') = 2 * 1 \<and>
      experience_buffer ag' ! (1 * 1 + 0) = (1, 0, 0, 1))"
proof -
  let ?E = "\<lparr>num_states = 2, num_actions = 1, start_state = 0, goal_state = 1,
           T = (\<lambda>s a. [0, 1]), R = (\<lambda>s a. 1)\<rparr>"
  let ?C = "\<lparr>alpha = 1/2, gamma = 1/2, epsilon = 1\<rparr>"
  let ?A = "\<lparr>Q = [], experience_buffer = [], action_count = [], history = [(5, 5, 5, 5)],
          action_taken = [], self_s = 7\<rparr>"
  have wf: "wf_env ?E" by (rule wf_env_example)
  have "(1::nat) < num_states ?E" and "(0::nat) < num_actions ?E" by simp_all
  from experience_model_total [OF wf this, of ?A ?C 3 None "sconst 0"]
  obtain ag' g'
    where first: "experience_buffer (reset ?E ?A) ! (1 * num_actions ?E + 0) = (1, 0, 0, 1)"
      and run: "simulate ?E ?C 3 True None (?A, sconst 0) = Some (ag', g')"
      and len: "length (experience_buffer ag') = num_states ?E * num_actions ?E"
      and fresh: "(1, 0) \<notin> set (chosen_pairs ag') \<longrightarrow>
               experience_buffer ag' ! (1 * num_actions ?E + 0) = (1, 0, 0, 1)"
    by blast
  from run simulate_example
  have "history ag' = [(0, 0, 1, 1), (0, 0, 1, 1), (0, 0, 1, 1)]" by auto
  then have "(1, 0) \<notin> set (chosen_pairs ag')"
    by (simp add: chosen_pairs_def)
  with fresh have "experience_buffer ag' ! (1 * 1 + 0) = (1, 0, 0, 1)" by simp
  moreover from len have "length (experience_buffer ag') = 2 * 1" by simp
  moreover from first have "experience_buffer (reset ?E ?A) ! (1 * 1 + 0) = (1, 0, 0, 1)"
    by simp
  ultimately show ?thesis using wf run by blast
qed

text \<open>
  C10. The row of the experience buffer at index \<open>s * num_actions + a\<close> holds \<open>s\<close> in its
  state column and \<open>a\<close> in its action column: after a reset, after recording any
  transition of a state and an action of the environment, after any number of planning
  updates, and after any run of the simulation.
\<close>

theorem buffer_keys_invariant:
  "keys_ok e (reset e ag) \<and>
   (s < num_states e \<and> a < num_actions e \<and> keys_ok e ag \<and>
    update_experience_buffer e ag s a r s1 = Some ag1 \<longrightarrow> keys_ok e ag1) \<and>
   (keys_ok e ag \<and> plan c k (ag, g) = Some (ag2, g2) \<longrightarrow> keys_ok e ag2) \<and>
   (wf_env e \<and> (reset_agent \<or> shapes_ok e ag \<and> keys_ok e ag) \<longrightarrow>
      (\<exists>ag' g'. simulate e c n reset_agent npu (ag, g) = Some (ag', g') \<and> keys_ok e ag'))"
proof (intro conjI impI)
  show "keys_ok e (reset e ag)" by (rule keys_ok_reset)
next
  assume *: "s < num_states e \<and> a < num_actions e \<and> keys_ok e ag \<and>
    update_experience_buffer e ag s a r s1 = Some ag1"
  then obtain k where "experience_buffer ag1 =
      (experience_buffer ag)[s * num_actions e + a := (s, a, k, s1)]"
    by (auto simp: update_experience_buffer_def bind_eq_Some_conv split: if_splits)
  with * show "keys_ok e ag1" by (intro keys_ok_record [of e ag a ag1 s k s1]) simp_all
next
  assume *: "keys_ok e ag \<and> plan c k (ag, g) = Some (ag2, g2)"
  with plan_frame [of c k ag g ag2 g2] have "experience_buffer ag2 = experience_buffer ag"
    by (metis agent.select_convs(2) agent.surjective agent.update_convs(1))
  with * show "keys_ok e ag2" by (simp add: keys_ok_def)
next
  assume *: "wf_env e \<and> (reset_agent \<or> shapes_ok e ag \<and> keys_ok e ag)"
  let ?ag0 = "if reset_agent then reset e ag else ag"
  from * have wf: "wf_env e" and sh0: "shapes_ok e ?ag0" and k0: "keys_ok e ?ag0"
    by (auto simp: shapes_ok_reset keys_ok_reset)
  from simulate_loop_invariant [of e ?ag0 "keys_ok e" c npu n g, OF wf sh0 k0]
    keys_ok_step [OF wf]
  show "\<exists>ag' g'. simulate e c n reset_agent npu (ag, g) = Some (ag', g') \<and> keys_ok e ag'"
    unfolding simulate_start by blast
qed

theorem buffer_keys_invariant_witness:
  "wf_env \<lparr>num_states = 2, num_actions = 1, start_state = 0, goal_state = 1,
           T = (\<lambda>s a. [0, 1]), R = (\<lambda>s a. 1)\<rparr> \<and>
   keys_ok \<lparr>num_states = 2, num_actions = 1, start_state = 0, goal_state = 1,
           T = (\<lambda>s a. [0, 1]), R = (\<lambda>s a. 1)\<rparr>
     (reset \<lparr>num_states = 2, num_actions = 1, start_state = 0, goal_state = 1,
           T = (\<lambda>s a. [0, 1]), R = (\<lambda>s a. 1)\<rparr>
      \<lparr>Q = [], experience_buffer = [], action_count = [], history = [(5, 5, 5, 5)],
          action_taken = [], self_s = 7\<rparr>) \<and>
   (\<exists>ag' g'.
      simulate \<lparr>num_states = 2, num_actions = 1, start_state = 0, goal_state = 1,
           T = (\<lambda>s a. [0, 1]), R = (\<lambda>s a. 1)\<rparr>
        \<lparr>alpha = 1/2, gamma = 1/2, epsilon = 1\<rparr> 3 True None
        (\<lparr>Q = [], experience_buffer = [], action_count = [], history = [(5, 5, 5, 5)],
          action_taken = [], self_s = 7\<rparr>, sconst 0) = Some (ag', g') \<and>
      experience_buffer ag' = [(0, 0, 1, 1), (1, 0, 0, 1)] \<and>
      keys_ok \<lparr>num_states = 2, num_actions = 1, start_state = 0, goal_state = 1,
           T = (\<lambda>s a. [0, 1]), R = (\<lambda>s a. 1)\<rparr> ag')"
proof -
  let ?E = "\<lparr>num_states = 2, num_actions = 1, start_state = 0, goal_state = 1,
           T = (\<lambda>s a. [0, 1]), R = (\<lambda>s a. 1)\<rparr>"
  let ?C = "\<lparr>alpha = 1/2, gamma = 1/2, epsilon = 1\<rparr>"
  let ?A = "\<lparr>Q = [], experience_buffer = [], action_count = [], history = [(5, 5, 5, 5)],
          action_taken = [], self_s = 7\<rparr>"
  have wf: "wf_env ?E" by (rule wf_env_example)
  from buffer_keys_invariant [where e = ?E and ag = ?A and reset_agent = True and c = ?C
      and n = 3 and npu = None and g = "sconst 0"]
  have k0: "keys_ok ?E (reset ?E ?A)"
    and sim: "wf_env ?E \<and> (True \<or> shapes_ok ?E ?A \<and> keys_ok ?E ?A) \<longrightarrow>
      (\<exists>ag' g'. simulate ?E ?C 3 True None (?A, sconst 0) = Some (ag', g') \<and>
         keys_ok ?E ag')"
    by blast+
  from sim wf obtain ag' g'
    where run: "simulate ?E ?C 3 True None (?A, sconst 0) = Some (ag', g')"
      and k: "keys_ok ?E ag'"
    by blast
  from run simulate_example
  have "experience_buffer ag' = [(0, 0, 1, 1), (1, 0, 0, 1)]" by auto
  with wf k0 run k show ?thesis by blast
qed

end
